theory Spec2Isabelle
  imports Complex_Main "HOL-Library.AList"
begin

section \<open>Tree structure\<close>

text \<open>
  The two engines (\<^verbatim>\<open>yang_and_smith/cut_deep_paralogs.py\<close> and
  \<^verbatim>\<open>yang_and_smith/prune_paralogs_mo.py\<close>) work on \<^verbatim>\<open>phylo3.Node\<close> objects: a
  node has a label, a branch length, an ordered child list and a parent reference, and
  the algorithms mutate these objects in place.

  A node object is a value \<open>Node i l b cs\<close>: \<open>i\<close> is the identity of the object (what
  Python's \<^verbatim>\<open>==\<close> compares on \<^verbatim>\<open>Node\<close>s), \<open>l\<close> its label, \<open>b\<close> its branch length and
  \<open>cs\<close> its children in list order. The store is the tree that holds every object
  reachable from the top node; a reference is an identity, resolved against the current
  store by \<open>lookup\<close>. The parent reference of the source is the position in the store
  (\<open>parent\<close>), which is what the data model's invariant
  \<^verbatim>\<open>n in p.children <-> n.parent == p\<close> says. A mutating operation takes the store
  and returns the new store. Tip labels are strings, as the parser produces them.

  A branch length is a Python float. It is modelled by the real number the float
  denotes, and \<^verbatim>\<open>>\<close> on floats is \<open>>\<close> on these reals. The sum of two floats is not
  the sum of the two reals but the float the machine's addition rounds it to
  (\<^verbatim>\<open>0.1 + 0.2\<close> is \<^verbatim>\<open>0.30000000000000004\<close>): the addition of floats is the parameter
  \<open>fadd\<close> of every function that adds lengths, and nothing is assumed of it.
\<close>

datatype node = Node (ident: nat) (label: string) (length_n: real) (children: "node list")

datatype error = ValueError | IndexError | AttributeError | AssertionError | Detached

datatype traversal = PREORDER | POSTORDER

text \<open>Derived predicates of the data model: \<^verbatim>\<open>is_tip := children is empty\<close>,
  \<^verbatim>\<open>nchildren := |children|\<close>.\<close>

definition istip :: "node \<Rightarrow> bool" where
  "istip n = (children n = [])"

definition nchildren :: "node \<Rightarrow> nat" where
  "nchildren n = length (children n)"

text \<open>Modelled from the spec: \<^verbatim>\<open>phylo3.Node.leaves\<close> and \<^verbatim>\<open>phylo3.Node.iternodes\<close>
  (the module \<^verbatim>\<open>phylo3\<close> is not among the sources). They produce the tip nodes, and all
  nodes, under a node inclusive; \<open>PREORDER\<close> yields a parent before its children.\<close>

fun leaves :: "node \<Rightarrow> node list" where
  "leaves (Node i l b cs) = (if cs = [] then [Node i l b cs] else concat (map leaves cs))"

fun iternodes :: "traversal \<Rightarrow> node \<Rightarrow> node list" where
  "iternodes ord (Node i l b cs) =
     (if ord = PREORDER then [Node i l b cs] else []) @
     concat (map (iternodes ord) cs) @
     (if ord = POSTORDER then [Node i l b cs] else [])"

text \<open>References into the store: the object with a given identity, the object whose
  child list holds it (the \<^verbatim>\<open>parent\<close> field; \<open>None\<close> is Python's \<^verbatim>\<open>None\<close>), and the
  in-place update of one object.\<close>

definition ids :: "node \<Rightarrow> nat list" where
  "ids T = map ident (iternodes PREORDER T)"

definition lookup :: "node \<Rightarrow> nat \<Rightarrow> node option" where
  "lookup T i = find (\<lambda>n. ident n = i) (iternodes PREORDER T)"

definition parent :: "node \<Rightarrow> nat \<Rightarrow> node option" where
  "parent T i = find (\<lambda>p. i \<in> ident ` set (children p)) (iternodes PREORDER T)"

fun update_at :: "nat \<Rightarrow> (node \<Rightarrow> node) \<Rightarrow> node \<Rightarrow> node" where
  "update_at i f (Node j l b cs) =
     (if i = j then f (Node j l b cs) else Node j l b (map (update_at i f) cs))"

definition set_children :: "node list \<Rightarrow> node \<Rightarrow> node" where
  "set_children cs n = Node (ident n) (label n) (length_n n) cs"

definition set_length :: "real \<Rightarrow> node \<Rightarrow> node" where
  "set_length b n = Node (ident n) (label n) b (children n)"

fun remove_id :: "nat \<Rightarrow> node list \<Rightarrow> node list" where
  "remove_id c [] = []"
| "remove_id c (x # xs) = (if ident x = c then xs else x # remove_id c xs)"

text \<open>Modelled from the spec: \<^verbatim>\<open>phylo3.Node.remove_child\<close>, \<^verbatim>\<open>add_child\<close> and \<^verbatim>\<open>prune\<close>.
  \<^verbatim>\<open>remove_child(parent, child)\<close> detaches the child from the parent's child list and
  fails if the child is not present; \<^verbatim>\<open>add_child(parent, child)\<close> appends the child;
  \<^verbatim>\<open>prune(node)\<close> detaches the node from its parent and does nothing on a node that has
  none. The reference \<open>prune\<close> hands back is the former parent: the caller in
  \<^verbatim>\<open>cut_long_internal_branches\<close> passes it to \<^verbatim>\<open>remove_kink\<close> as the node left with
  one child.\<close>

definition remove_child :: "node \<Rightarrow> nat \<Rightarrow> nat \<Rightarrow> error + node" where
  "remove_child T p c =
     (case lookup T p of
        None \<Rightarrow> Inl Detached
      | Some pn \<Rightarrow>
          if c \<in> ident ` set (children pn)
          then Inr (update_at p (\<lambda>n. set_children (remove_id c (children n)) n) T)
          else Inl AssertionError)"

definition add_child :: "node \<Rightarrow> nat \<Rightarrow> node \<Rightarrow> node" where
  "add_child T p c = update_at p (\<lambda>n. set_children (children n @ [c]) n) T"

definition prune :: "node \<Rightarrow> nat \<Rightarrow> error + (node \<times> nat option)" where
  "prune T n =
     (case parent T n of
        None \<Rightarrow> Inr (T, None)
      | Some p \<Rightarrow>
          (case remove_child T (ident p) n of
             Inl e \<Rightarrow> Inl e
           | Inr T' \<Rightarrow> Inr (T', Some (ident p))))"

text \<open>Modelled from the spec: \<^verbatim>\<open>phylo3.reroot(root, new_root_target)\<close>. The chain of
  objects from the top of the tree down to the target is \<open>path_to\<close>; along it every
  parent/child link is reversed (\<^verbatim>\<open>cp.remove_child(node); node.add_child(cp)\<close>) and the
  length of the reversed edge moves to the former parent (\<^verbatim>\<open>cp.length = node.length\<close>).
  A target that is already the top leaves the tree as it is. The result is the target,
  now the top of the store.\<close>

fun path_to :: "nat \<Rightarrow> node \<Rightarrow> nat list option" where
  "path_to i (Node j l b cs) =
     (if i = j then Some [j]
      else (case concat (map (\<lambda>r. case r of None \<Rightarrow> [] | Some p \<Rightarrow> [p]) (map (path_to i) cs)) of
              [] \<Rightarrow> None
            | p # _ \<Rightarrow> Some (j # p)))"

fun reroot_along :: "node \<Rightarrow> nat list \<Rightarrow> error + node" where
  "reroot_along cp [] = Inr cp"
| "reroot_along cp (i # is) =
     (case find (\<lambda>c. ident c = i) (children cp) of
        None \<Rightarrow> Inl AssertionError
      | Some nd \<Rightarrow>
          (let cp1 = set_children (remove_id i (children cp)) cp;
               cp2 = set_length (length_n nd) cp1;
               nd1 = set_children (children nd @ [cp2]) nd
           in reroot_along nd1 is))"

definition reroot :: "node \<Rightarrow> nat \<Rightarrow> nat \<Rightarrow> error + (node \<times> nat)" where
  "reroot T oldroot newroot =
     (case path_to newroot T of
        None \<Rightarrow> Inl Detached
      | Some v \<Rightarrow>
          (case reroot_along T (tl v) of
             Inl e \<Rightarrow> Inl e
           | Inr T' \<Rightarrow> Inr (T', newroot)))"

section \<open>Traversal and query utilities\<close>

text \<open>\<^verbatim>\<open>get_name\<close>: \<^verbatim>\<open>label.split(".")[0]\<close>, everything before the first period.\<close>

definition get_name :: "string \<Rightarrow> string" where
  "get_name l = takeWhile (\<lambda>c. c \<noteq> CHR ''.'') l"

definition get_front_labels :: "node \<Rightarrow> string list" where
  "get_front_labels n = map label (leaves n)"

text \<open>\<^verbatim>\<open>get_back_labels\<close> returns the Python set
  \<^verbatim>\<open>set(all_labels) - set(front_labels)\<close>; it is kept as a duplicate-free list, in the
  order of the tips of the tree. The callers only count its elements.\<close>

definition get_back_labels :: "node \<Rightarrow> node \<Rightarrow> string list" where
  "get_back_labels n rt =
     remdups (filter (\<lambda>l. l \<notin> set (get_front_labels n)) (get_front_labels rt))"

definition get_front_names :: "node \<Rightarrow> string list" where
  "get_front_names n = map get_name (get_front_labels n)"

definition get_front_outgroup_names :: "node \<Rightarrow> string list \<Rightarrow> string list" where
  "get_front_outgroup_names n outgroups = filter (\<lambda>i. i \<in> set outgroups) (get_front_names n)"

definition get_back_names :: "node \<Rightarrow> node \<Rightarrow> string list" where
  "get_back_names n rt = map get_name (get_back_labels n rt)"

text \<open>\<^verbatim>\<open>count_taxa\<close> (cut\_deep\_paralogs.py): \<^verbatim>\<open>len(set(get_front_names(node)))\<close>.\<close>

definition count_taxa :: "node \<Rightarrow> nat" where
  "count_taxa n = card (set (get_front_names n))"

section \<open>Kink removal\<close>

text \<open>
  \<^verbatim>\<open>remove_kink(node, curroot)\<close>. When the node is the current root and the root has
  exactly two children, the tree is first rerooted on \<^verbatim>\<open>children[1]\<close> if
  \<^verbatim>\<open>children[0]\<close> is a tip and on \<^verbatim>\<open>children[0]\<close> otherwise. Then the node's first
  child takes the node's place under the node's parent, its length being the float sum
  \<open>fadd\<close> of the two lengths.
  \<^verbatim>\<open>node.children[0]\<close> on a childless node raises \<^verbatim>\<open>IndexError\<close>;
  \<^verbatim>\<open>par.remove_child\<close> on a node without parent raises \<^verbatim>\<open>AttributeError\<close>.
  The result is the new store with the references \<^verbatim>\<open>(node, curroot)\<close> of the source.
\<close>

definition remove_kink_root :: "node \<Rightarrow> nat \<Rightarrow> nat \<Rightarrow> error + (node \<times> nat)" where
  "remove_kink_root T n curroot =
     (case lookup T curroot of
        None \<Rightarrow> Inl Detached
      | Some r \<Rightarrow>
          if n = curroot \<and> nchildren r = 2
          then (if istip (children r ! 0)
                then reroot T curroot (ident (children r ! 1))
                else reroot T curroot (ident (children r ! 0)))
          else Inr (T, curroot))"

definition remove_kink :: "(real \<Rightarrow> real \<Rightarrow> real) \<Rightarrow> node \<Rightarrow> nat \<Rightarrow> nat \<Rightarrow> error + (node \<times> nat \<times> nat)" where
  "remove_kink fadd T n curroot =
     (case remove_kink_root T n curroot of
        Inl e \<Rightarrow> Inl e
      | Inr (T1, curroot1) \<Rightarrow>
          (case lookup T1 n of
             None \<Rightarrow> Inl Detached
           | Some kink \<Rightarrow>
               (case children kink of
                  [] \<Rightarrow> Inl IndexError
                | c # _ \<Rightarrow>
                    (let len = fadd (length_n kink) (length_n c) in
                     case parent T1 n of
                       None \<Rightarrow> Inl AttributeError
                     | Some par \<Rightarrow>
                         (case remove_child T1 (ident par) n of
                            Inl e \<Rightarrow> Inl e
                          | Inr T2 \<Rightarrow>
                              (let T3 = add_child T2 (ident par) c;
                                   T4 = update_at (ident c) (set_length len) T3
                               in Inr (T4, ident c, curroot1)))))))"

section \<open>Rerooting on a monophyletic outgroup\<close>

text \<open>
  \<^verbatim>\<open>reroot_with_monophyletic_outgroups(root, outgroups)\<close>. The outgroup tips are
  collected first. With exactly one, the tree is rerooted on the parent of that tip.
  Otherwise the nodes are visited in the order of \<^verbatim>\<open>root.iternodes()\<close>: the source
  passes no order, and the order the traversal then takes is the parameter \<open>dflt\<close>.
  \<open>mono_scan\<close> is the \<^verbatim>\<open>for\<close> loop; its result is \<^verbatim>\<open>newroot\<close>. The function returns
  \<open>None\<close> where the source returns \<^verbatim>\<open>None\<close>.
\<close>

fun mono_scan :: "node \<Rightarrow> node \<Rightarrow> string list \<Rightarrow> node list \<Rightarrow> nat option" where
  "mono_scan T rt outgroups [] = None"
| "mono_scan T rt outgroups (n # ns) =
     (if ident n = ident rt then mono_scan T rt outgroups ns
      else
        (let front_names = get_front_names n;
             back_names = get_back_names n rt;
             front_out_names = length (filter (\<lambda>i. i \<in> set outgroups) front_names);
             front_in_names = length (filter (\<lambda>i. i \<notin> set outgroups) front_names);
             back_out_names = length (filter (\<lambda>j. j \<in> set outgroups) back_names);
             back_in_names = length (filter (\<lambda>j. j \<notin> set outgroups) back_names)
         in if front_in_names = 0 \<and> front_out_names > 0 \<and> back_in_names > 0 \<and> back_out_names = 0
            then map_option ident (parent T (ident n))
            else if front_in_names > 0 \<and> front_out_names = 0 \<and> back_in_names = 0 \<and> back_out_names > 0
            then map_option ident (parent T (ident n))
            else mono_scan T rt outgroups ns))"

definition reroot_with_monophyletic_outgroups ::
  "traversal \<Rightarrow> node \<Rightarrow> nat \<Rightarrow> string list \<Rightarrow> error + (node \<times> nat) option" where
  "reroot_with_monophyletic_outgroups dflt T rt outgroups =
     (case lookup T rt of
        None \<Rightarrow> Inl Detached
      | Some r \<Rightarrow>
          (let outgroup_leaves = filter (\<lambda>leaf. get_name (label leaf) \<in> set outgroups) (leaves r) in
           if length outgroup_leaves = 1
           then (case map_of (map (\<lambda>leaf. (label leaf, leaf)) (rev outgroup_leaves))
                        (label (outgroup_leaves ! 0)) of
                   None \<Rightarrow> Inl Detached
                 | Some leaf \<Rightarrow>
                     (case parent T (ident leaf) of
                        None \<Rightarrow> Inl AttributeError
                      | Some new_root \<Rightarrow>
                          (case reroot T rt (ident new_root) of
                             Inl e \<Rightarrow> Inl e
                           | Inr res \<Rightarrow> Inr (Some res))))
           else (case mono_scan T r outgroups (iternodes dflt r) of
                   Some newroot \<Rightarrow>
                     (case reroot T rt newroot of
                        Inl e \<Rightarrow> Inl e
                      | Inr res \<Rightarrow> Inr (Some res))
                 | None \<Rightarrow> Inr None)))"

section \<open>Pruning paralogs from a rerooted tree\<close>

text \<open>\<^verbatim>\<open>X.remove_child(Y); Y.prune()\<close>, the two statements that cut a clade off.\<close>

definition cut_clade :: "node \<Rightarrow> nat \<Rightarrow> nat \<Rightarrow> error + node" where
  "cut_clade T p c =
     (case remove_child T p c of
        Inl e \<Rightarrow> Inl e
      | Inr T1 \<Rightarrow> (case prune T1 c of Inl e \<Rightarrow> Inl e | Inr (T2, _) \<Rightarrow> Inr T2))"

text \<open>
  The check for duplications at the root (the \<^verbatim>\<open>if/elif/else\<close> block on
  \<^verbatim>\<open>out0, out1, out2\<close>). Fewer than three root children make the unpacking of
  \<^verbatim>\<open>root.children[0..2]\<close> raise \<^verbatim>\<open>IndexError\<close>.
\<close>

definition prune_root_level :: "node \<Rightarrow> nat \<Rightarrow> string list \<Rightarrow> error + node" where
  "prune_root_level T rt outgroups =
     (case lookup T rt of
        None \<Rightarrow> Inl Detached
      | Some r \<Rightarrow>
          (case children r of
             node0 # node1 # node2 # _ \<Rightarrow>
               (let out0 = length (get_front_outgroup_names node0 outgroups);
                    out1 = length (get_front_outgroup_names node1 outgroups);
                    out2 = length (get_front_outgroup_names node2 outgroups)
                in if out0 = 0 \<and> out1 = 0
                   then (let name_set0 = set (get_front_names node0);
                             name_set1 = set (get_front_names node1)
                         in if card (name_set0 \<inter> name_set1) > 0
                            then (if card name_set0 > card name_set1
                                  then cut_clade T rt (ident node1)
                                  else cut_clade T rt (ident node0))
                            else Inr T)
                   else if out1 = 0 \<and> out2 = 0
                   then (let name_set1 = set (get_front_names node1);
                             name_set2 = set (get_front_names node2)
                         in if card (name_set1 \<inter> name_set2) > 0
                            then (if card name_set1 > card name_set2
                                  then cut_clade T rt (ident node2)
                                  else cut_clade T rt (ident node1))
                            else Inr T)
                   else if out0 = 0 \<and> out2 = 0
                   then (let name_set0 = set (get_front_names node0);
                             name_set2 = set (get_front_names node2)
                         in if card (name_set0 \<inter> name_set2) > 0
                            then (if card name_set0 > card name_set2
                                  then cut_clade T rt (ident node2)
                                  else cut_clade T rt (ident node0))
                            else Inr T)
                   else Inl ValueError)
           | _ \<Rightarrow> Inl IndexError))"

text \<open>
  One pass of the \<^verbatim>\<open>for\<close> loop over \<^verbatim>\<open>root.iternodes(order=0)\<close>: \<open>None\<close> when the
  loop runs to its end without a \<^verbatim>\<open>break\<close>, otherwise the store after the first
  intersecting sibling pair was cut and its kink removed (or the error raised).
\<close>

fun prune_scan :: "(real \<Rightarrow> real \<Rightarrow> real) \<Rightarrow> node \<Rightarrow> nat \<Rightarrow> node list \<Rightarrow> (error + node \<times> nat) option" where
  "prune_scan fadd T rt [] = None"
| "prune_scan fadd T rt (n # ns) =
     (if istip n then prune_scan fadd T rt ns
      else if ident n = rt then prune_scan fadd T rt ns
      else
        (case children n of
           child0 # child1 # _ \<Rightarrow>
             (let name_set0 = set (get_front_names child0);
                  name_set1 = set (get_front_names child1)
              in if card (name_set0 \<inter> name_set1) > 0
                 then Some
                   (case (if card name_set0 > card name_set1
                          then cut_clade T (ident n) (ident child1)
                          else cut_clade T (ident n) (ident child0)) of
                      Inl e \<Rightarrow> Inl e
                    | Inr T1 \<Rightarrow>
                        (case remove_kink fadd T1 (ident n) rt of
                           Inl e \<Rightarrow> Inl e
                         | Inr (T2, n2, rt2) \<Rightarrow> Inr (T2, rt2)))
                 else prune_scan fadd T rt ns)
         | _ \<Rightarrow> Some (Inl IndexError)))"

text \<open>
  The \<^verbatim>\<open>while\<close> loop: as long as the front names of the root repeat, scan again. A
  pass that ends without a \<^verbatim>\<open>break\<close> leaves the store as it was, and the loop goes
  round again on the same store; not returning is the value \<open>None\<close>.
\<close>

partial_function (option) prune_loop :: "(real \<Rightarrow> real \<Rightarrow> real) \<Rightarrow> node \<Rightarrow> nat \<Rightarrow> (error + node \<times> nat) option" where
  "prune_loop fadd T rt =
     (case lookup T rt of
        None \<Rightarrow> Some (Inl Detached)
      | Some r \<Rightarrow>
          if length (get_front_names r) > card (set (get_front_names r))
          then (case prune_scan fadd T rt (iternodes PREORDER r) of
                  None \<Rightarrow> prune_loop fadd T rt
                | Some (Inl e) \<Rightarrow> Some (Inl e)
                | Some (Inr (T', rt')) \<Rightarrow> prune_loop fadd T' rt')
          else Some (Inr (T, rt)))"

declare prune_loop.simps [code]

definition prune_paralogs_from_rerooted_homotree ::
  "(real \<Rightarrow> real \<Rightarrow> real) \<Rightarrow> node \<Rightarrow> nat \<Rightarrow> string list \<Rightarrow> (error + node \<times> nat) option" where
  "prune_paralogs_from_rerooted_homotree fadd T rt outgroups =
     (case lookup T rt of
        None \<Rightarrow> Some (Inl Detached)
      | Some r \<Rightarrow>
          if length (get_front_names r) = card (set (get_front_names r))
          then Some (Inr (T, rt))
          else (case prune_root_level T rt outgroups of
                  Inl e \<Rightarrow> Some (Inl e)
                | Inr T1 \<Rightarrow> prune_loop fadd T1 rt))"

section \<open>The monophyletic-outgroup pipeline for one tree\<close>

text \<open>
  The body of the loop over tree files in \<^verbatim>\<open>main\<close> (prune\_paralogs\_mo.py), from the
  parsed tree \<^verbatim>\<open>intree\<close> to the category the tree is recorded in. The tree written to
  the \<^verbatim>\<open>.ortho.tre\<close> file is carried by \<open>MoOutputAboveMinimumTaxa\<close>. The filter after
  pruning reads \<^verbatim>\<open>get_front_names(curroot)\<close> in the store as the pruning left it.

  Modelled from the spec: \<^verbatim>\<open>newick3.tostring(node)\<close> serialises the node it is given by
  reading its fields. When the rerooting returns \<^verbatim>\<open>None\<close>, \<^verbatim>\<open>main\<close> has bound
  \<^verbatim>\<open>curroot\<close> to that \<^verbatim>\<open>None\<close> and hands it to \<^verbatim>\<open>newick3.tostring\<close> to fill the
  non-monophyletic category: reading a field of \<^verbatim>\<open>None\<close> raises \<^verbatim>\<open>AttributeError\<close>,
  and the category \<open>NonMonophyleticOutgroups\<close> is not reached.
\<close>

datatype mo_outcome =
    UnrecognisedTaxonNames
  | FewerThanMinimumTaxa
  | OneToOneOrthologs
  | NoOutgroupTaxa
  | DuplicateTaxaInOutgroup
  | NonMonophyleticOutgroups
  | MoOutputAboveMinimumTaxa node
  | MoOutputBelowMinimumTaxa

definition mo_filter :: "node \<Rightarrow> nat \<Rightarrow> nat \<Rightarrow> int \<Rightarrow> error + mo_outcome" where
  "mo_filter T curroot ortho minimum_taxa =
     (case lookup T curroot of
        None \<Rightarrow> Inl Detached
      | Some c \<Rightarrow>
          if int (card (set (get_front_names c))) \<ge> minimum_taxa
          then (case lookup T ortho of
                  None \<Rightarrow> Inl Detached
                | Some t \<Rightarrow> Inr (MoOutputAboveMinimumTaxa t))
          else Inr MoOutputBelowMinimumTaxa)"

definition mo_resolve ::
  "(real \<Rightarrow> real \<Rightarrow> real) \<Rightarrow> traversal \<Rightarrow> node \<Rightarrow> nat \<Rightarrow> string list \<Rightarrow> int \<Rightarrow> (error + mo_outcome) option" where
  "mo_resolve fadd dflt T curroot outgroups minimum_taxa =
     (case reroot_with_monophyletic_outgroups dflt T curroot outgroups of
        Inl e \<Rightarrow> Some (Inl e)
      | Inr None \<Rightarrow> Some (Inl AttributeError)
      | Inr (Some (T1, curroot1)) \<Rightarrow>
          (case prune_paralogs_from_rerooted_homotree fadd T1 curroot1 outgroups of
             None \<Rightarrow> None
           | Some (Inl e) \<Rightarrow> Some (Inl e)
           | Some (Inr (T2, ortho)) \<Rightarrow> Some (mo_filter T2 curroot1 ortho minimum_taxa)))"

definition mo_tree ::
  "(real \<Rightarrow> real \<Rightarrow> real) \<Rightarrow> traversal \<Rightarrow> node \<Rightarrow> string list \<Rightarrow> string list \<Rightarrow> int \<Rightarrow> (error + mo_outcome) option" where
  "mo_tree fadd dflt intree ingroups outgroups minimum_taxa =
     (let curroot = ident intree;
          names = get_front_names intree;
          num_tips = length names;
          num_taxa = card (set names)
      in if filter (\<lambda>name. name \<notin> set ingroups \<and> name \<notin> set outgroups) names \<noteq> []
         then Some (Inr UnrecognisedTaxonNames)
         else if int num_taxa < minimum_taxa then Some (Inr FewerThanMinimumTaxa)
         else if num_tips = num_taxa then Some (Inr OneToOneOrthologs)
         else
           (let outgroup_names = get_front_outgroup_names intree outgroups
            in if length outgroup_names = 0 then Some (Inr NoOutgroupTaxa)
               else if length outgroup_names > card (set outgroup_names)
               then Some (Inr DuplicateTaxaInOutgroup)
               else if nchildren intree = 2
               then (case remove_kink fadd intree curroot curroot of
                       Inl e \<Rightarrow> Some (Inl e)
                     | Inr (T, temp, curroot') \<Rightarrow> mo_resolve fadd dflt T curroot' outgroups minimum_taxa)
               else mo_resolve fadd dflt intree curroot outgroups minimum_taxa))"

section \<open>Cutting long internal branches\<close>

text \<open>
  \<^verbatim>\<open>cut_long_internal_branches(curroot, internal_branch_length_cutoff)\<close>
  (cut\_deep\_paralogs.py). \<open>cut_scan\<close> is one pass of the \<^verbatim>\<open>for\<close> loop over
  \<^verbatim>\<open>curroot.iternodes()\<close>, in the traversal's default order \<open>dflt\<close>; it ends with
  \<open>None\<close> when no \<^verbatim>\<open>break\<close> was taken, and otherwise with the store, the root, the
  two collections and the flag \<^verbatim>\<open>going\<close>. Inside it, \<open>cut_decide\<close> is the block that
  keeps or discards the subtrees of a branch that is too long, and \<open>cut_prune\<close> the
  statements from \<^verbatim>\<open>node = node.prune()\<close> to the \<^verbatim>\<open>break\<close>. The serialiser \<^verbatim>\<open>newick3.tostring\<close> and
  the text Python prints for a float are the parameters \<open>tostring\<close> and \<open>fmt\<close>. The
  discard dictionary is an association list in insertion order.
\<close>

text \<open>The two reason strings of the discard dictionary (f-strings of the source; both
  print \<^verbatim>\<open>child0_node.length\<close> twice).\<close>

definition cut_reason0 :: "(real \<Rightarrow> string) \<Rightarrow> real \<Rightarrow> node \<Rightarrow> node \<Rightarrow> string" where
  "cut_reason0 fmt cutoff n child0_node =
     ''Node length ('' @ fmt (length_n n) @ '') > cutoff ('' @ fmt cutoff @
     ''); both children not tips; combined length of child0_node branch ('' @
     fmt (length_n child0_node) @ '') and child1_node branch ('' @ fmt (length_n child0_node) @
     '') > cutoff; child0_node has fewer than 4 taxa''"

definition cut_reason1 :: "(real \<Rightarrow> string) \<Rightarrow> real \<Rightarrow> node \<Rightarrow> node \<Rightarrow> string" where
  "cut_reason1 fmt cutoff n child0_node =
     ''Node length ('' @ fmt (length_n n) @ '') > cutoff ('' @ fmt cutoff @
     ''); both children not tips; combined length of child0_node branch ('' @
     fmt (length_n child0_node) @ '') and child1_node branch ('' @ fmt (length_n child0_node) @
     '') > cutoff; child1_node has fewer than 4 taxa''"

definition cut_decide ::
  "(real \<Rightarrow> real \<Rightarrow> real) \<Rightarrow> (node \<Rightarrow> string) \<Rightarrow> (real \<Rightarrow> string) \<Rightarrow> real \<Rightarrow> node \<Rightarrow> node \<Rightarrow> node \<Rightarrow> node list \<Rightarrow>
   (string \<times> string) list \<Rightarrow> node list \<times> (string \<times> string) list" where
  "cut_decide fadd tostring fmt cutoff n child0_node child1_node subtrees discarded =
     (if \<not> istip child0_node \<and> \<not> istip child1_node \<and>
         fadd (length_n child0_node) (length_n child1_node) > cutoff
      then
        (let (s0, d0) =
               (if count_taxa child0_node \<ge> 4
                then (subtrees @ [child0_node], discarded)
                else (subtrees,
                      AList.update (tostring child0_node)
                        (cut_reason0 fmt cutoff n child0_node) discarded))
         in if count_taxa child1_node \<ge> 4
            then (s0 @ [child1_node], d0)
            else (s0,
                  AList.update (tostring child1_node)
                    (cut_reason1 fmt cutoff n child0_node) d0))
      else (subtrees @ [n], discarded))"

definition cut_prune ::
  "(real \<Rightarrow> real \<Rightarrow> real) \<Rightarrow> node \<Rightarrow> nat \<Rightarrow> nat \<Rightarrow> node list \<Rightarrow> (string \<times> string) list \<Rightarrow>
   error + node \<times> nat \<times> node list \<times> (string \<times> string) list \<times> bool" where
  "cut_prune fadd T n curroot subtrees discarded =
     (case prune T n of
        Inl e \<Rightarrow> Inl e
      | Inr (T1, par) \<Rightarrow>
          (case lookup T1 curroot of
             None \<Rightarrow> Inl Detached
           | Some r1 \<Rightarrow>
               if length (leaves r1) > 2
               then (case par of
                       None \<Rightarrow> Inl AttributeError
                     | Some p \<Rightarrow>
                         (case remove_kink fadd T1 p curroot of
                            Inl e \<Rightarrow> Inl e
                          | Inr (T2, n2, curroot2) \<Rightarrow>
                              Inr (T2, curroot2, subtrees, discarded, True)))
               else Inr (T1, curroot, subtrees, discarded, False)))"

fun cut_scan ::
  "(real \<Rightarrow> real \<Rightarrow> real) \<Rightarrow> (node \<Rightarrow> string) \<Rightarrow> (real \<Rightarrow> string) \<Rightarrow> real \<Rightarrow> node \<Rightarrow> nat \<Rightarrow> node list \<Rightarrow> (string \<times> string) list \<Rightarrow>
   node list \<Rightarrow> (error + node \<times> nat \<times> node list \<times> (string \<times> string) list \<times> bool) option" where
  "cut_scan fadd tostring fmt cutoff T curroot subtrees discarded [] = None"
| "cut_scan fadd tostring fmt cutoff T curroot subtrees discarded (n # ns) =
     (if istip n \<or> ident n = curroot
      then cut_scan fadd tostring fmt cutoff T curroot subtrees discarded ns
      else if nchildren n = 1
      then Some (case remove_kink fadd T (ident n) curroot of
                   Inl e \<Rightarrow> Inl e
                 | Inr (T1, n1, curroot1) \<Rightarrow> Inr (T1, curroot1, subtrees, discarded, True))
      else
        (case children n of
           child0_node # child1_node # _ \<Rightarrow>
             if length_n n > cutoff
             then Some
               (let (subtrees1, discarded1) =
                      cut_decide fadd tostring fmt cutoff n child0_node child1_node subtrees discarded
                in cut_prune fadd T (ident n) curroot subtrees1 discarded1)
             else cut_scan fadd tostring fmt cutoff T curroot subtrees discarded ns
         | _ \<Rightarrow> Some (Inl IndexError)))"

partial_function (option) cut_loop ::
  "(real \<Rightarrow> real \<Rightarrow> real) \<Rightarrow> (node \<Rightarrow> string) \<Rightarrow> (real \<Rightarrow> string) \<Rightarrow> traversal \<Rightarrow> real \<Rightarrow> node \<Rightarrow> nat \<Rightarrow> node list \<Rightarrow>
   (string \<times> string) list \<Rightarrow> (error + node \<times> nat \<times> node list \<times> (string \<times> string) list) option" where
  "cut_loop fadd tostring fmt dflt cutoff T curroot subtrees discarded =
     (case lookup T curroot of
        None \<Rightarrow> Some (Inl Detached)
      | Some r \<Rightarrow>
          (case cut_scan fadd tostring fmt cutoff T curroot subtrees discarded (iternodes dflt r) of
             None \<Rightarrow> Some (Inr (T, curroot, subtrees, discarded))
           | Some (Inl e) \<Rightarrow> Some (Inl e)
           | Some (Inr (T1, curroot1, subtrees1, discarded1, going)) \<Rightarrow>
               if going
               then cut_loop fadd tostring fmt dflt cutoff T1 curroot1 subtrees1 discarded1
               else Some (Inr (T1, curroot1, subtrees1, discarded1))))"

declare cut_loop.simps [code]

text \<open>The residue after cutting is kept or discarded last.\<close>

definition cut_residue ::
  "(node \<Rightarrow> string) \<Rightarrow> node \<Rightarrow> node list \<Rightarrow> (string \<times> string) list \<Rightarrow> node list \<times> (string \<times> string) list" where
  "cut_residue tostring r subtrees discarded =
     (if count_taxa r \<ge> 4
      then (subtrees @ [r], discarded)
      else (subtrees,
            AList.update (tostring r) ''After cutting, remaining tree has fewer than 4 taxa'' discarded))"

definition cut_long_internal_branches ::
  "(real \<Rightarrow> real \<Rightarrow> real) \<Rightarrow> (node \<Rightarrow> string) \<Rightarrow> (real \<Rightarrow> string) \<Rightarrow> traversal \<Rightarrow> node \<Rightarrow> nat \<Rightarrow> real \<Rightarrow>
   (error + node list \<times> (string \<times> string) list) option" where
  "cut_long_internal_branches fadd tostring fmt dflt T curroot internal_branch_length_cutoff =
     (case cut_loop fadd tostring fmt dflt internal_branch_length_cutoff T curroot [] [] of
        None \<Rightarrow> None
      | Some (Inl e) \<Rightarrow> Some (Inl e)
      | Some (Inr (T1, curroot1, subtrees, subtrees_discarded)) \<Rightarrow>
          (case lookup T1 curroot1 of
             None \<Rightarrow> Some (Inl Detached)
           | Some r \<Rightarrow> Some (Inr (cut_residue tostring r subtrees subtrees_discarded))))"

section \<open>The pruning loop, one node at a time\<close>

text \<open>
  The test the \<^verbatim>\<open>for\<close> loop of \<^verbatim>\<open>prune_paralogs_from_rerooted_homotree\<close> makes on a
  node (not a tip, not the root, the name sets of \<^verbatim>\<open>children[0]\<close> and \<^verbatim>\<open>children[1]\<close>
  intersect), and what it does on a node that passes it: cut one of the two children,
  remove the kink, \<^verbatim>\<open>break\<close>.
\<close>

definition sibling_clash :: "nat \<Rightarrow> node \<Rightarrow> bool" where
  "sibling_clash rt n =
     (\<not> istip n \<and> ident n \<noteq> rt \<and>
      (case children n of
         child0 # child1 # _ \<Rightarrow>
           card (set (get_front_names child0) \<inter> set (get_front_names child1)) > 0
       | _ \<Rightarrow> False))"

definition prune_step ::
  "(real \<Rightarrow> real \<Rightarrow> real) \<Rightarrow> node \<Rightarrow> nat \<Rightarrow> node \<Rightarrow> error + node \<times> nat" where
  "prune_step fadd T rt n =
     (case children n of
        child0 # child1 # _ \<Rightarrow>
          (case (if card (set (get_front_names child0)) > card (set (get_front_names child1))
                 then cut_clade T (ident n) (ident child1)
                 else cut_clade T (ident n) (ident child0)) of
             Inl e \<Rightarrow> Inl e
           | Inr T1 \<Rightarrow>
               (case remove_kink fadd T1 (ident n) rt of
                  Inl e \<Rightarrow> Inl e
                | Inr (T2, n2, rt2) \<Rightarrow> Inr (T2, rt2)))
      | _ \<Rightarrow> Inl IndexError)"

text \<open>
  The pair of root children that the \<^verbatim>\<open>if/elif\<close> chain on \<^verbatim>\<open>out0, out1, out2\<close>
  compares, in the order the source names them; \<open>None\<close> where the chain ends in
  \<^verbatim>\<open>ValueError\<close> or the root has fewer than three children.
\<close>

definition ingroup_pair :: "node \<Rightarrow> string list \<Rightarrow> (node \<times> node) option" where
  "ingroup_pair r outgroups =
     (case children r of
        node0 # node1 # node2 # _ \<Rightarrow>
          (let out0 = length (get_front_outgroup_names node0 outgroups);
               out1 = length (get_front_outgroup_names node1 outgroups);
               out2 = length (get_front_outgroup_names node2 outgroups)
           in if out0 = 0 \<and> out1 = 0 then Some (node0, node1)
              else if out1 = 0 \<and> out2 = 0 then Some (node1, node2)
              else if out0 = 0 \<and> out2 = 0 then Some (node0, node2)
              else None)
      | _ \<Rightarrow> None)"

section \<open>Sample trees\<close>

text \<open>Concrete trees on which the theorems below are instantiated. Tip labels are
  \<^verbatim>\<open>taxon.copy\<close>.\<close>

definition tip :: "nat \<Rightarrow> string \<Rightarrow> real \<Rightarrow> node" where
  "tip i l b = Node i l b []"

text \<open>A root whose two children are both tips: \<^verbatim>\<open>(A.1:1,B.1:2)\<close>.\<close>

definition two_tip_tree :: node where
  "two_tip_tree = Node 0 '''' 0 [tip 1 ''A.1'' 1, tip 2 ''B.1'' 2]"

text \<open>\<^verbatim>\<open>((A.1,B.1),((A.2,C.1),D.1),O.1)\<close>: taxon \<^verbatim>\<open>A\<close> is duplicated, \<^verbatim>\<open>O\<close> is the
  outgroup, and the root is the parent of the single outgroup tip.\<close>

definition homotree :: node where
  "homotree =
     Node 0 '''' 0
       [Node 1 '''' 1 [tip 2 ''A.1'' 1, tip 3 ''B.1'' 1],
        Node 4 '''' 1 [Node 5 '''' 1 [tip 6 ''A.2'' 1, tip 7 ''C.1'' 1], tip 8 ''D.1'' 1],
        tip 9 ''O.1'' 1]"

definition homotree_pruned :: node where
  "homotree_pruned =
     Node 0 '''' 0
       [Node 4 '''' 1 [Node 5 '''' 1 [tip 6 ''A.2'' 1, tip 7 ''C.1'' 1], tip 8 ''D.1'' 1],
        tip 9 ''O.1'' 1]"

text \<open>\<^verbatim>\<open>(O1.1,O2.1,(A.1,A.2))\<close>: two of the three root children are outgroup tips.\<close>

definition two_outgroup_clades_tree :: node where
  "two_outgroup_clades_tree =
     Node 0 '''' 0 [tip 1 ''O1.1'' 1, tip 2 ''O2.1'' 1, Node 3 '''' 1 [tip 4 ''A.1'' 1, tip 5 ''A.2'' 1]]"

text \<open>Trees for the cutting engine, with a stand-in for the serialiser and for the text
  of a float. In \<open>long_branch_tree\<close> the branch above \<open>long_node\<close> has length 5 and
  both its children are internal with lengths 3 and 3; in \<open>long_branch_residue\<close> the
  only internal branch has length exactly 2.\<close>

fun sample_tostring :: "node \<Rightarrow> string" where
  "sample_tostring (Node i l b cs) =
     (if cs = [] then l else ''('' @ concat (map (\<lambda>c. sample_tostring c @ '','') cs) @ '')'')"

definition sample_fmt :: "real \<Rightarrow> string" where
  "sample_fmt r = ''_''"

text \<open>A stand-in for the addition of floats on the sample trees: where lengths are
  added there, the lengths and their sums are small integers, and on these the addition
  of floats is exact.\<close>

definition sample_fadd :: "real \<Rightarrow> real \<Rightarrow> real" where
  "sample_fadd x y = x + y"

definition three_tip_tree :: node where
  "three_tip_tree = Node 0 '''' 0 [tip 1 ''a.1'' 1, tip 2 ''b.1'' 1, tip 3 ''c.1'' 1]"

definition long_child0 :: node where
  "long_child0 =
     Node 8 '''' 3 [Node 9 '''' 1 [tip 10 ''e.1'' 1, tip 11 ''f.1'' 1],
                    Node 12 '''' 1 [tip 13 ''g.1'' 1, tip 14 ''h.1'' 1]]"

definition long_child1 :: node where
  "long_child1 = Node 15 '''' 3 [tip 16 ''i.1'' 1, tip 17 ''j.1'' 1]"

definition long_node :: node where
  "long_node = Node 7 '''' 5 [long_child0, long_child1]"

definition long_branch_tree :: node where
  "long_branch_tree =
     Node 0 '''' 0
       [Node 1 '''' 1 [tip 2 ''a.1'' 1, tip 3 ''b.1'' 1],
        Node 4 '''' 1 [tip 5 ''c.1'' 1, tip 6 ''d.1'' 1],
        long_node]"

definition long_branch_residue :: node where
  "long_branch_residue =
     Node 1 '''' 1 [tip 2 ''a.1'' 1, tip 3 ''b.1'' 1, Node 4 '''' 2 [tip 5 ''c.1'' 1, tip 6 ''d.1'' 1]]"

text \<open>\<^verbatim>\<open>(A.1,A.2,(B,(OUT1,OUT2)))\<close>, the tree of the spec's end-to-end scenario once its
  bifurcating root has been moved, and the same tree rerooted on the parent of the
  outgroup clade.\<close>

definition outgroup_pair_tree :: node where
  "outgroup_pair_tree =
     Node 1 '''' 0.05
       [tip 2 ''A.1'' 0.1, tip 3 ''A.2'' 0.1,
        Node 4 '''' 0.35 [tip 5 ''B'' 0.2, Node 6 '''' 0.05 [tip 7 ''OUT1'' 0.1, tip 8 ''OUT2'' 0.1]]]"

definition outgroup_pair_rerooted :: node where
  "outgroup_pair_rerooted =
     Node 4 '''' 0.35
       [tip 5 ''B'' 0.2, Node 6 '''' 0.05 [tip 7 ''OUT1'' 0.1, tip 8 ''OUT2'' 0.1],
        Node 1 '''' 0.35 [tip 2 ''A.1'' 0.1, tip 3 ''A.2'' 0.1]]"

text \<open>\<^verbatim>\<open>((A.1:1):5,B.1:2,C.1:2)\<close>: node 3 is a kink.\<close>

definition kink_tree :: node where
  "kink_tree = Node 0 '''' 0 [Node 3 '''' 5 [tip 1 ''A.1'' 1], tip 2 ''B.1'' 2, tip 4 ''C.1'' 2]"

text \<open>\<^verbatim>\<open>((A.1,D.1),(A.2,(B.1,(B.2,C.1))),(O1.1,O2.1))\<close>: taxon \<^verbatim>\<open>A\<close> is duplicated across the
  two ingroup clades at the root and taxon \<^verbatim>\<open>B\<close> inside the second one; below it the
  tree once both duplications are pruned.\<close>

definition nested_homotree :: node where
  "nested_homotree =
     Node 0 '''' 0
       [Node 1 '''' 1 [tip 2 ''A.1'' 1, tip 3 ''D.1'' 1],
        Node 4 '''' 1
          [tip 5 ''A.2'' 1,
           Node 6 '''' 1 [tip 7 ''B.1'' 1, Node 8 '''' 1 [tip 9 ''B.2'' 1, tip 10 ''C.1'' 1]]],
        Node 11 '''' 1 [tip 12 ''O1.1'' 1, tip 13 ''O2.1'' 1]]"

definition nested_homotree_pruned :: node where
  "nested_homotree_pruned =
     Node 0 '''' 0
       [Node 4 '''' 1 [tip 5 ''A.2'' 1, Node 8 '''' 2 [tip 9 ''B.2'' 1, tip 10 ''C.1'' 1]],
        Node 11 '''' 1 [tip 12 ''O1.1'' 1, tip 13 ''O2.1'' 1]]"

text \<open>\<^verbatim>\<open>((A.1,B.1),(A.2,(C.1,C.2)),O.1)\<close>: the two ingroup clades at the root share \<^verbatim>\<open>A\<close>
  and have two names each; the siblings \<^verbatim>\<open>C.1\<close> and \<^verbatim>\<open>C.2\<close> have one name each.
  \<open>tie_tree_scanned\<close> is the tree after one pass of the loop.\<close>

definition tie_first :: node where
  "tie_first = Node 1 '''' 1 [tip 2 ''A.1'' 1, tip 3 ''B.1'' 1]"

definition tie_second :: node where
  "tie_second = Node 4 '''' 1 [tip 5 ''A.2'' 1, Node 6 '''' 1 [tip 7 ''C.1'' 1, tip 8 ''C.2'' 1]]"

definition tie_tree :: node where
  "tie_tree = Node 0 '''' 0 [tie_first, tie_second, tip 9 ''O.1'' 1]"

definition tie_tree_scanned :: node where
  "tie_tree_scanned =
     Node 0 '''' 0
       [Node 1 '''' 1 [tip 2 ''A.1'' 1, tip 3 ''B.1'' 1],
        Node 4 '''' 1 [tip 5 ''A.2'' 1, tip 8 ''C.2'' 2],
        tip 9 ''O.1'' 1]"

section \<open>The claims as the specification words them\<close>

text \<open>Following the spec (4.3): a candidate subtree is kept when its unique-taxon count
  is at least the minimum-taxa threshold that the caller supplies.\<close>

definition spec_keeps :: "nat \<Rightarrow> node \<Rightarrow> bool" where
  "spec_keeps min_taxa c = (count_taxa c \<ge> min_taxa)"

text \<open>Following the spec (4.4): for a node, all tips are partitioned into front (under
  the node) and back (the rest); the node qualifies if the front is purely outgroup and
  non-empty while the back is purely ingroup and non-empty, or the front is purely
  ingroup and non-empty while the back is purely outgroup and non-empty.\<close>

definition spec_qualifies :: "node \<Rightarrow> string list \<Rightarrow> node \<Rightarrow> bool" where
  "spec_qualifies rt outgroups n =
     (let front = leaves n;
          back = filter (\<lambda>t. t \<notin> set (leaves n)) (leaves rt);
          is_out = (\<lambda>t. get_name (label t) \<in> set outgroups)
      in (front \<noteq> [] \<and> list_all is_out front \<and> back \<noteq> [] \<and> list_all (\<lambda>t. \<not> is_out t) back) \<or>
         (front \<noteq> [] \<and> list_all (\<lambda>t. \<not> is_out t) front \<and> back \<noteq> [] \<and> list_all is_out back))"

text \<open>The test \<open>mono_scan\<close> makes on a node, from the four counters of the source.\<close>

definition code_qualifies :: "node \<Rightarrow> string list \<Rightarrow> node \<Rightarrow> bool" where
  "code_qualifies rt outgroups n =
     (let front_names = get_front_names n;
          back_names = get_back_names n rt;
          front_out_names = length (filter (\<lambda>i. i \<in> set outgroups) front_names);
          front_in_names = length (filter (\<lambda>i. i \<notin> set outgroups) front_names);
          back_out_names = length (filter (\<lambda>j. j \<in> set outgroups) back_names);
          back_in_names = length (filter (\<lambda>j. j \<notin> set outgroups) back_names)
      in (front_in_names = 0 \<and> front_out_names > 0 \<and> back_in_names > 0 \<and> back_out_names = 0) \<or>
         (front_in_names > 0 \<and> front_out_names = 0 \<and> back_in_names = 0 \<and> back_out_names > 0))"

text \<open>The parent object after a kink was removed: the kink \<open>n\<close> is taken out of the
  child list and the kink's child \<open>c\<close>, with its new length, is appended.\<close>

definition splice :: "node \<Rightarrow> nat \<Rightarrow> node \<Rightarrow> real \<Rightarrow> node" where
  "splice par n c len = set_children (remove_id n (children par) @ [set_length len c]) par"

text \<open>
  A valid rerooted homotree, as the specification describes the result of a rooting on
  a monophyletic outgroup: a tree of distinct nodes whose root has three children, one
  of them carrying outgroup tips only and the other two none, and in which every node
  below the root is a tip or has exactly two children. \<open>prune_inv\<close> is what the loop
  keeps true: no two children of the root share a name.
\<close>

fun binary :: "node \<Rightarrow> bool" where
  "binary (Node i l b cs) = (cs = [] \<or> (length cs = 2 \<and> (\<forall>c \<in> set cs. binary c)))"

definition disjoint_children :: "node \<Rightarrow> bool" where
  "disjoint_children T =
     (\<forall>c \<in> set (children T). \<forall>d \<in> set (children T).
        c \<noteq> d \<longrightarrow> set (get_front_names c) \<inter> set (get_front_names d) = {})"

definition prune_inv :: "node \<Rightarrow> bool" where
  "prune_inv T = (distinct (ids T) \<and> (\<forall>c \<in> set (children T). binary c) \<and> disjoint_children T)"

definition valid_rerooted_homotree :: "node \<Rightarrow> string list \<Rightarrow> bool" where
  "valid_rerooted_homotree T outgroups =
     (distinct (ids T) \<and> length (children T) = 3 \<and> (\<forall>c \<in> set (children T). binary c) \<and>
      (\<exists>og \<in> set (children T).
         set (get_front_names og) \<subseteq> set outgroups \<and>
         (\<forall>c \<in> set (children T). c \<noteq> og \<longrightarrow> set (get_front_names c) \<inter> set outgroups = {})))"

text \<open>
  The clade of a pair that is removed according to the specification: the first-listed
  one, unless its set of names is strictly larger than that of the second.
\<close>

definition spec_removed_clade :: "node \<Rightarrow> node \<Rightarrow> node" where
  "spec_removed_clade first second =
     (if card (set (get_front_names first)) > card (set (get_front_names second))
      then second else first)"

definition spec_kept_clade :: "node \<Rightarrow> node \<Rightarrow> node" where
  "spec_kept_clade first second =
     (if card (set (get_front_names first)) > card (set (get_front_names second))
      then first else second)"

section \<open>Properties of the pruning loop\<close>

lemma reroot_along_no_ValueError: "reroot_along cp is \<noteq> Inl ValueError"
  by (induction cp "is" rule: reroot_along.induct) (auto split: option.splits simp: Let_def)

lemma reroot_no_ValueError: "reroot T a b \<noteq> Inl ValueError"
  using reroot_along_no_ValueError
  by (auto simp: reroot_def split: option.splits sum.splits)

lemma remove_child_no_ValueError: "remove_child T p c \<noteq> Inl ValueError"
  by (auto simp: remove_child_def split: option.splits)

lemma prune_no_ValueError: "prune T c \<noteq> Inl ValueError"
  using remove_child_no_ValueError
  by (auto simp: prune_def split: option.splits sum.splits)

lemma cut_clade_no_ValueError: "cut_clade T p c \<noteq> Inl ValueError"
  using remove_child_no_ValueError prune_no_ValueError
  by (auto simp: cut_clade_def split: option.splits sum.splits)

lemma remove_kink_root_no_ValueError: "remove_kink_root T n c \<noteq> Inl ValueError"
  using reroot_no_ValueError
  by (auto simp: remove_kink_root_def split: option.splits)

lemma remove_kink_no_ValueError: "remove_kink fadd T n c \<noteq> Inl ValueError"
  using remove_kink_root_no_ValueError remove_child_no_ValueError
  by (auto simp: remove_kink_def Let_def split: option.splits sum.splits list.splits prod.splits)

lemma prune_scan_no_ValueError: "prune_scan fadd T rt ns \<noteq> Some (Inl ValueError)"
proof (induction ns)
  case Nil
  then show ?case by simp
next
  case (Cons n ns)
  then show ?case
    using cut_clade_no_ValueError remove_kink_no_ValueError
    by (auto simp: Let_def split: list.splits sum.splits prod.splits)
qed

lemma prune_loop_no_ValueError:
  assumes "prune_loop fadd T rt = Some y"
  shows "y \<noteq> Inl ValueError"
proof (rule prune_loop.raw_induct[where P = "\<lambda>fadd T rt y. y \<noteq> Inl ValueError", OF _ assms])
  fix f fadd T rt y
  assume "\<And>fadd T rt y. f fadd T rt = Some y \<Longrightarrow> y \<noteq> Inl ValueError"
    and "(case lookup T rt of None \<Rightarrow> Some (Inl Detached)
      | Some r \<Rightarrow>
          if card (set (get_front_names r)) < length (get_front_names r)
          then case prune_scan fadd T rt (iternodes PREORDER r) of
               None \<Rightarrow> f fadd T rt | Some (Inl e) \<Rightarrow> Some (Inl e)
               | Some (Inr (T', rt')) \<Rightarrow> f fadd T' rt'
          else Some (Inr (T, rt))) = Some y"
  then show "y \<noteq> Inl ValueError"
    using prune_scan_no_ValueError
    by (auto split: option.splits if_splits sum.splits prod.splits)
qed

lemma remove_kink_root_other:
  "n \<noteq> c \<Longrightarrow> remove_kink_root T n c = Inr (T', c') \<Longrightarrow> T' = T \<and> c' = c"
  by (auto simp: remove_kink_root_def split: option.splits)

lemma remove_kink_other_root:
  "n \<noteq> c \<Longrightarrow> remove_kink fadd T n c = Inr (T', n', c') \<Longrightarrow> c' = c"
  by (auto simp: remove_kink_def Let_def dest!: remove_kink_root_other
      split: option.splits sum.splits list.splits prod.splits)

lemma prune_scan_root: "prune_scan fadd T rt ns = Some (Inr (T', rt')) \<Longrightarrow> rt' = rt"
proof (induction ns)
  case Nil
  then show ?case by simp
next
  case (Cons n ns)
  then show ?case
    by (auto simp: Let_def dest: remove_kink_other_root
        split: list.splits sum.splits prod.splits if_splits)
qed

lemma prune_loop_root:
  assumes "prune_loop fadd T rt = Some y"
  shows "\<forall>T' rt'. y = Inr (T', rt') \<longrightarrow> rt' = rt"
proof (rule prune_loop.raw_induct[where P = "\<lambda>fadd T rt y. \<forall>T' rt'. y = Inr (T', rt') \<longrightarrow> rt' = rt", OF _ assms])
  fix f fadd T rt y
  assume "\<And>fadd T rt y. f fadd T rt = Some y \<Longrightarrow> \<forall>T' rt'. y = Inr (T', rt') \<longrightarrow> rt' = rt"
    and "(case lookup T rt of None \<Rightarrow> Some (Inl Detached)
      | Some r \<Rightarrow>
          if card (set (get_front_names r)) < length (get_front_names r)
          then case prune_scan fadd T rt (iternodes PREORDER r) of
               None \<Rightarrow> f fadd T rt | Some (Inl e) \<Rightarrow> Some (Inl e)
               | Some (Inr (T', rt')) \<Rightarrow> f fadd T' rt'
          else Some (Inr (T, rt))) = Some y"
  then show "\<forall>T' rt'. y = Inr (T', rt') \<longrightarrow> rt' = rt"
    by (fastforce dest: prune_scan_root split: option.splits if_splits sum.splits prod.splits)
qed

lemma prune_loop_exit:
  assumes "prune_loop fadd T rt = Some y"
  shows "\<forall>T' rt'. y = Inr (T', rt') \<longrightarrow>
           (\<exists>r'. lookup T' rt' = Some r' \<and>
                 \<not> card (set (get_front_names r')) < length (get_front_names r'))"
proof (rule prune_loop.raw_induct[where P = "\<lambda>fadd T rt y. \<forall>T' rt'. y = Inr (T', rt') \<longrightarrow>
           (\<exists>r'. lookup T' rt' = Some r' \<and>
                 \<not> card (set (get_front_names r')) < length (get_front_names r'))", OF _ assms])
  fix f fadd T rt y
  assume "\<And>fadd T rt y. f fadd T rt = Some y \<Longrightarrow> \<forall>T' rt'. y = Inr (T', rt') \<longrightarrow>
           (\<exists>r'. lookup T' rt' = Some r' \<and>
                 \<not> card (set (get_front_names r')) < length (get_front_names r'))"
    and "(case lookup T rt of None \<Rightarrow> Some (Inl Detached)
      | Some r \<Rightarrow>
          if card (set (get_front_names r)) < length (get_front_names r)
          then case prune_scan fadd T rt (iternodes PREORDER r) of
               None \<Rightarrow> f fadd T rt | Some (Inl e) \<Rightarrow> Some (Inl e)
               | Some (Inr (T', rt')) \<Rightarrow> f fadd T' rt'
          else Some (Inr (T, rt))) = Some y"
  then show "\<forall>T' rt'. y = Inr (T', rt') \<longrightarrow>
           (\<exists>r'. lookup T' rt' = Some r' \<and>
                 \<not> card (set (get_front_names r')) < length (get_front_names r'))"
    by (fastforce split: option.splits if_splits sum.splits prod.splits)
qed

lemma prune_paralogs_result:
  assumes "prune_paralogs_from_rerooted_homotree fadd T rt outgroups = Some (Inr (T', rt'))"
  shows "rt' = rt \<and> (\<exists>r'. lookup T' rt' = Some r' \<and>
           card (set (get_front_names r')) = length (get_front_names r'))"
proof -
  have le: "card (set xs) \<le> length xs" for xs :: "string list"
    by (rule card_length)
  show ?thesis
  proof (cases "lookup T rt")
    case None
    with assms show ?thesis
      by (simp add: prune_paralogs_from_rerooted_homotree_def)
  next
    case (Some r)
    show ?thesis
    proof (cases "length (get_front_names r) = card (set (get_front_names r))")
      case True
      with Some assms show ?thesis
        by (simp add: prune_paralogs_from_rerooted_homotree_def)
    next
      case False
      with Some assms obtain T1 where
        "prune_root_level T rt outgroups = Inr T1" and loop: "prune_loop fadd T1 rt = Some (Inr (T', rt'))"
        by (auto simp: prune_paralogs_from_rerooted_homotree_def split: sum.splits)
      from prune_loop_root[OF loop] have "rt' = rt" by simp
      moreover from prune_loop_exit[OF loop] obtain r' where
        "lookup T' rt' = Some r'" "\<not> card (set (get_front_names r')) < length (get_front_names r')"
        by blast
      moreover have "card (set (get_front_names r')) \<le> length (get_front_names r')"
        by (rule le)
      ultimately show ?thesis by auto
    qed
  qed
qed

text \<open>
  C5. Whenever \<^verbatim>\<open>prune_paralogs_from_rerooted_homotree\<close> returns a tree, the front names
  of the returned root hold no name twice; in particular no ingroup taxon appears on more
  than one tip.
\<close>

theorem prune_paralogs_single_copy:
  assumes "prune_paralogs_from_rerooted_homotree fadd T rt outgroups = Some (Inr (T', rt'))"
  shows "\<exists>r'. lookup T' rt' = Some r' \<and> distinct (get_front_names r') \<and>
                distinct (filter (\<lambda>name. name \<notin> set outgroups) (get_front_names r'))"
proof -
  from prune_paralogs_result[OF assms] obtain r' where
    r: "lookup T' rt' = Some r'" and c: "card (set (get_front_names r')) = length (get_front_names r')"
    by blast
  from c have "distinct (get_front_names r')"
    by (rule card_distinct)
  with r show ?thesis by auto
qed

theorem prune_paralogs_single_copy_witness:
  "prune_paralogs_from_rerooted_homotree sample_fadd homotree 0 [''O''] = Some (Inr (homotree_pruned, 0)) \<and>
   (\<exists>r'. lookup homotree_pruned 0 = Some r' \<and> distinct (get_front_names r') \<and>
         distinct (filter (\<lambda>name. name \<notin> set [''O'']) (get_front_names r')))"
proof -
  have h: "prune_paralogs_from_rerooted_homotree sample_fadd homotree 0 [''O''] = Some (Inr (homotree_pruned, 0))"
    by code_simp
  show ?thesis
    using h prune_paralogs_single_copy[OF h] by simp
qed

text \<open>
  C4. On a root with three children and duplicated taxa,
  \<^verbatim>\<open>prune_paralogs_from_rerooted_homotree\<close> raises
  \<^verbatim>\<open>ValueError('More than one clade with outgroup sequences!')\<close> exactly when more than
  one of the three root children has outgroup tips in front of it; with at most one such
  child the function does not end in that error.
\<close>

theorem more_than_one_outgroup_clade_error:
  assumes "lookup T rt = Some r"
    and "children r = [node0, node1, node2]"
    and "length (get_front_names r) \<noteq> card (set (get_front_names r))"
  shows "prune_paralogs_from_rerooted_homotree fadd T rt outgroups = Some (Inl ValueError) \<longleftrightarrow>
         1 < length (filter (\<lambda>c. get_front_outgroup_names c outgroups \<noteq> []) [node0, node1, node2])"
proof (cases "prune_root_level T rt outgroups = Inl ValueError")
  case True
  have "1 < length (filter (\<lambda>c. get_front_outgroup_names c outgroups \<noteq> []) [node0, node1, node2])"
    using True assms(1,2) cut_clade_no_ValueError
    by (auto simp: prune_root_level_def Let_def split: if_splits)
  moreover have "prune_paralogs_from_rerooted_homotree fadd T rt outgroups = Some (Inl ValueError)"
    using True assms by (simp add: prune_paralogs_from_rerooted_homotree_def)
  ultimately show ?thesis by simp
next
  case False
  have "\<not> 1 < length (filter (\<lambda>c. get_front_outgroup_names c outgroups \<noteq> []) [node0, node1, node2])"
    using False assms(1,2)
    by (auto simp: prune_root_level_def Let_def split: if_splits)
  moreover have "prune_paralogs_from_rerooted_homotree fadd T rt outgroups \<noteq> Some (Inl ValueError)"
    using False assms prune_loop_no_ValueError
    by (auto simp: prune_paralogs_from_rerooted_homotree_def split: sum.splits)
  ultimately show ?thesis by simp
qed

theorem more_than_one_outgroup_clade_error_witness:
  "prune_paralogs_from_rerooted_homotree sample_fadd two_outgroup_clades_tree 0 [''O1'', ''O2''] = Some (Inl ValueError) \<and>
   prune_paralogs_from_rerooted_homotree sample_fadd homotree 0 [''O''] \<noteq> Some (Inl ValueError)"
proof -
  have a: "lookup two_outgroup_clades_tree 0 = Some two_outgroup_clades_tree"
    by code_simp
  have b: "children two_outgroup_clades_tree =
      [tip 1 ''O1.1'' 1, tip 2 ''O2.1'' 1, Node 3 '''' 1 [tip 4 ''A.1'' 1, tip 5 ''A.2'' 1]]"
    by (simp add: two_outgroup_clades_tree_def)
  have c: "length (get_front_names two_outgroup_clades_tree) \<noteq> card (set (get_front_names two_outgroup_clades_tree))"
    by code_simp
  have d: "1 < length (filter (\<lambda>c. get_front_outgroup_names c [''O1'', ''O2''] \<noteq> [])
      [tip 1 ''O1.1'' 1, tip 2 ''O2.1'' 1, Node 3 '''' 1 [tip 4 ''A.1'' 1, tip 5 ''A.2'' 1]])"
    by code_simp
  have a': "lookup homotree 0 = Some homotree"
    by code_simp
  have b': "children homotree =
      [Node 1 '''' 1 [tip 2 ''A.1'' 1, tip 3 ''B.1'' 1],
        Node 4 '''' 1 [Node 5 '''' 1 [tip 6 ''A.2'' 1, tip 7 ''C.1'' 1], tip 8 ''D.1'' 1],
        tip 9 ''O.1'' 1]"
    by (simp add: homotree_def)
  have c': "length (get_front_names homotree) \<noteq> card (set (get_front_names homotree))"
    by code_simp
  have d': "\<not> 1 < length (filter (\<lambda>c. get_front_outgroup_names c [''O''] \<noteq> [])
      [Node 1 '''' 1 [tip 2 ''A.1'' 1, tip 3 ''B.1'' 1],
        Node 4 '''' 1 [Node 5 '''' 1 [tip 6 ''A.2'' 1, tip 7 ''C.1'' 1], tip 8 ''D.1'' 1],
        tip 9 ''O.1'' 1])"
    by code_simp
  show ?thesis
    using more_than_one_outgroup_clade_error[OF a b c, of sample_fadd "[''O1'', ''O2'']"] d
      more_than_one_outgroup_clade_error[OF a' b' c', of sample_fadd "[''O'']"] d'
    by simp
qed

section \<open>The filter after pruning\<close>

text \<open>
  C1, as the claim words it, fails. On \<open>homotree\<close> the rerooted tree has five unique
  taxa and the minimum is five, yet the tree is recorded as below the minimum: the
  pruning has cut \<^verbatim>\<open>(A.1,B.1)\<close> off the very object \<^verbatim>\<open>curroot\<close> refers to before
  \<^verbatim>\<open>get_front_names(curroot)\<close> is read.
\<close>

theorem mo_filter_rerooted_count_counterexample:
  "reroot_with_monophyletic_outgroups PREORDER homotree 0 [''O''] = Inr (Some (homotree, 0)) \<and>
   (5::int) \<le> int (card (set (get_front_names homotree))) \<and>
   mo_tree sample_fadd PREORDER homotree [''A'', ''B'', ''C'', ''D''] [''O''] 5 = Some (Inr MoOutputBelowMinimumTaxa)"
  by code_simp

text \<open>
  C1, amended. After a successful rerooting and pruning, the reference the pruning
  returns is the reference that went in (\<^verbatim>\<open>ortho\<close> and \<^verbatim>\<open>curroot\<close> are one object,
  mutated in place), and the pruned tree is written if and only if the unique-taxon
  count of that pruned tree is at least the minimum.
\<close>

theorem mo_filter_counts_pruned_tree:
  assumes "reroot_with_monophyletic_outgroups dflt T curroot outgroups = Inr (Some (T1, curroot1))"
    and "prune_paralogs_from_rerooted_homotree fadd T1 curroot1 outgroups = Some (Inr (T2, ortho))"
  shows "ortho = curroot1 \<and>
         (\<exists>t. lookup T2 ortho = Some t \<and>
              mo_resolve fadd dflt T curroot outgroups minimum_taxa =
                Some (Inr (if minimum_taxa \<le> int (card (set (get_front_names t)))
                           then MoOutputAboveMinimumTaxa t else MoOutputBelowMinimumTaxa)))"
proof -
  from prune_paralogs_result[OF assms(2)] obtain t where
    o: "ortho = curroot1" and t: "lookup T2 ortho = Some t"
    by blast
  from o t assms show ?thesis
    by (simp add: mo_resolve_def mo_filter_def)
qed

theorem mo_filter_counts_pruned_tree_witness:
  "reroot_with_monophyletic_outgroups PREORDER homotree 0 [''O''] = Inr (Some (homotree, 0)) \<and>
   prune_paralogs_from_rerooted_homotree sample_fadd homotree 0 [''O''] = Some (Inr (homotree_pruned, 0)) \<and>
   mo_resolve sample_fadd PREORDER homotree 0 [''O''] 5 = Some (Inr MoOutputBelowMinimumTaxa) \<and>
   mo_resolve sample_fadd PREORDER homotree 0 [''O''] 4 = Some (Inr (MoOutputAboveMinimumTaxa homotree_pruned))"
proof -
  have a: "reroot_with_monophyletic_outgroups PREORDER homotree 0 [''O''] = Inr (Some (homotree, 0))"
    by code_simp
  have b: "prune_paralogs_from_rerooted_homotree sample_fadd homotree 0 [''O''] = Some (Inr (homotree_pruned, 0))"
    by code_simp
  have c: "lookup homotree_pruned 0 = Some homotree_pruned"
    by code_simp
  have d: "int (card (set (get_front_names homotree_pruned))) = 4"
    by code_simp
  show ?thesis
    using a b c d mo_filter_counts_pruned_tree[OF a b, of 5] mo_filter_counts_pruned_tree[OF a b, of 4]
    by simp
qed

section \<open>Kink removal at a root with two tips\<close>

text \<open>
  C9 at a root whose two children are both tips: \<^verbatim>\<open>children[0]\<close> is a tip, so the tree
  is rerooted on \<^verbatim>\<open>children[1]\<close>, and that target (object 2) is a tip as well. It ends
  up as the root, with the other tip as its only child.
\<close>

theorem remove_kink_two_tips_target:
  "remove_kink sample_fadd two_tip_tree 0 0 = Inr (Node 2 ''B.1'' 2 [Node 1 ''A.1'' 3 []], 1, 2) \<and>
   map_option istip (lookup two_tip_tree 2) = Some True"
  by code_simp

section \<open>Cutting long internal branches\<close>





lemma cut_residue_threshold:
  "cut_residue tostring r subs disc = (subs', disc') \<Longrightarrow>
   subs' = subs @ filter (\<lambda>c. 4 \<le> count_taxa c) [r] \<and>
   fst ` set disc' = fst ` set disc \<union> tostring ` {c \<in> {r}. count_taxa c < 4}"
proof (cases "4 \<le> count_taxa r")
  case True
  assume "cut_residue tostring r subs disc = (subs', disc')"
  with True show ?thesis by (auto simp: cut_residue_def)
next
  case False
  assume "cut_residue tostring r subs disc = (subs', disc')"
  with False have "subs' = subs" "disc' = AList.update (tostring r) ''After cutting, remaining tree has fewer than 4 taxa'' disc"
    by (auto simp: cut_residue_def)
  moreover from False have "{c \<in> {r}. count_taxa c < 4} = {r}" by auto
  ultimately show ?thesis using False by (simp add: dom_update)
qed


lemma cut_decide_split:
  assumes "\<not> istip child0" "\<not> istip child1" "fadd (length_n child0) (length_n child1) > cutoff"
    and "cut_decide fadd tostring fmt cutoff n child0 child1 subtrees discarded = (subtrees', discarded')"
  shows "subtrees' = subtrees @ filter (\<lambda>c. 4 \<le> count_taxa c) [child0, child1] \<and>
         fst ` set discarded' =
           fst ` set discarded \<union> tostring ` {c \<in> {child0, child1}. count_taxa c < 4}"
proof -
  have s: "{c \<in> {child0, child1}. count_taxa c < 4} =
        (if count_taxa child0 < 4 then {child0} else {}) \<union> (if count_taxa child1 < 4 then {child1} else {})"
    by auto
  from assms have "(subtrees', discarded') =
      (let (s0, d0) =
               (if count_taxa child0 \<ge> 4
                then (subtrees @ [child0], discarded)
                else (subtrees, AList.update (tostring child0) (cut_reason0 fmt cutoff n child0) discarded))
         in if count_taxa child1 \<ge> 4
            then (s0 @ [child1], d0)
            else (s0, AList.update (tostring child1) (cut_reason1 fmt cutoff n child0) d0))"
    by (simp add: cut_decide_def)
  then show ?thesis
    unfolding s by (simp add: dom_update split: if_splits)
qed

lemma cut_prune_keeps:
  "cut_prune fadd T n curroot s d = Inr (T', c', s', d', g) \<Longrightarrow> s' = s \<and> d' = d"
  by (auto simp: cut_prune_def split: sum.splits prod.splits option.splits if_splits)

text \<open>
  C2, as the claim words it, fails: the function has no minimum-taxa parameter. A residue
  with three taxa is discarded although a caller's minimum of three would keep it.
\<close>

theorem cut_fixed_threshold_counterexample:
  "spec_keeps 3 three_tip_tree \<and>
   cut_long_internal_branches sample_fadd sample_tostring sample_fmt PREORDER three_tip_tree 0 2 =
     Some (Inr ([], [(sample_tostring three_tip_tree,
                      ''After cutting, remaining tree has fewer than 4 taxa'')]))"
  by code_simp

text \<open>
  C2, amended. The threshold is the constant 4. When a long branch is split, each of its
  two children is appended to the kept subtrees if and only if its unique-taxon count is
  at least 4, and otherwise its serialisation becomes a key of the discard dictionary;
  the same holds for the residue when the loop has ended.
\<close>

theorem cut_candidates_kept_iff_four_taxa:
  "(\<not> istip n \<and> ident n \<noteq> curroot \<and> nchildren n \<noteq> 1 \<and> children n = child0 # child1 # rest \<and>
    length_n n > cutoff \<and> \<not> istip child0 \<and> \<not> istip child1 \<and>
    fadd (length_n child0) (length_n child1) > cutoff \<and>
    cut_scan fadd tostring fmt cutoff T curroot subtrees discarded (n # ns) =
      Some (Inr (T', curroot', subtrees', discarded', going))
    \<longrightarrow> subtrees' = subtrees @ filter (\<lambda>c. 4 \<le> count_taxa c) [child0, child1] \<and>
        fst ` set discarded' =
          fst ` set discarded \<union> tostring ` {c \<in> {child0, child1}. count_taxa c < 4}) \<and>
   (cut_loop fadd tostring fmt dflt cutoff T curroot [] [] = Some (Inr (T1, curroot1, subs, disc)) \<and>
    lookup T1 curroot1 = Some r
    \<longrightarrow> (\<exists>subs' disc'.
          cut_long_internal_branches fadd tostring fmt dflt T curroot cutoff = Some (Inr (subs', disc')) \<and>
          subs' = subs @ filter (\<lambda>c. 4 \<le> count_taxa c) [r] \<and>
          fst ` set disc' = fst ` set disc \<union> tostring ` {c \<in> {r}. count_taxa c < 4}))"
proof (rule conjI; rule impI)
  assume a: "\<not> istip n \<and> ident n \<noteq> curroot \<and> nchildren n \<noteq> 1 \<and> children n = child0 # child1 # rest \<and>
    length_n n > cutoff \<and> \<not> istip child0 \<and> \<not> istip child1 \<and>
    fadd (length_n child0) (length_n child1) > cutoff \<and>
    cut_scan fadd tostring fmt cutoff T curroot subtrees discarded (n # ns) =
      Some (Inr (T', curroot', subtrees', discarded', going))"
  obtain s1 d1 where dec: "cut_decide fadd tostring fmt cutoff n child0 child1 subtrees discarded = (s1, d1)"
    by (cases "cut_decide fadd tostring fmt cutoff n child0 child1 subtrees discarded")
  from a dec have "cut_prune fadd T (ident n) curroot s1 d1 = Inr (T', curroot', subtrees', discarded', going)"
    by clarsimp
  then have "subtrees' = s1 \<and> discarded' = d1"
    by (rule cut_prune_keeps)
  with cut_decide_split[OF _ _ _ dec] a
  show "subtrees' = subtrees @ filter (\<lambda>c. 4 \<le> count_taxa c) [child0, child1] \<and>
        fst ` set discarded' =
          fst ` set discarded \<union> tostring ` {c \<in> {child0, child1}. count_taxa c < 4}"
    by blast
next
  assume a: "cut_loop fadd tostring fmt dflt cutoff T curroot [] [] = Some (Inr (T1, curroot1, subs, disc)) \<and>
    lookup T1 curroot1 = Some r"
  obtain subs' disc' where r: "cut_residue tostring r subs disc = (subs', disc')"
    by (cases "cut_residue tostring r subs disc")
  from a r have "cut_long_internal_branches fadd tostring fmt dflt T curroot cutoff = Some (Inr (subs', disc'))"
    by (simp add: cut_long_internal_branches_def)
  with cut_residue_threshold[OF r]
  show "\<exists>subs' disc'.
          cut_long_internal_branches fadd tostring fmt dflt T curroot cutoff = Some (Inr (subs', disc')) \<and>
          subs' = subs @ filter (\<lambda>c. 4 \<le> count_taxa c) [r] \<and>
          fst ` set disc' = fst ` set disc \<union> tostring ` {c \<in> {r}. count_taxa c < 4}"
    by blast
qed

theorem cut_candidates_kept_iff_four_taxa_witness:
  "cut_scan sample_fadd sample_tostring sample_fmt 2 long_branch_tree 0 [] [] [long_node] =
     Some (Inr (long_branch_residue, 1, [long_child0],
                [(sample_tostring long_child1, cut_reason1 sample_fmt 2 long_node long_child0)], True)) \<and>
   [long_child0] = [] @ filter (\<lambda>c. 4 \<le> count_taxa c) [long_child0, long_child1] \<and>
   fst ` set [(sample_tostring long_child1, cut_reason1 sample_fmt 2 long_node long_child0)] =
     fst ` set ([] :: (string \<times> string) list) \<union>
     sample_tostring ` {c \<in> {long_child0, long_child1}. count_taxa c < 4} \<and>
   (\<exists>subs' disc'.
      cut_long_internal_branches sample_fadd sample_tostring sample_fmt PREORDER long_branch_tree 0 2 =
        Some (Inr (subs', disc')) \<and>
      subs' = [long_child0] @ filter (\<lambda>c. 4 \<le> count_taxa c) [long_branch_residue] \<and>
      fst ` set disc' =
        fst ` set [(sample_tostring long_child1, cut_reason1 sample_fmt 2 long_node long_child0)] \<union>
        sample_tostring ` {c \<in> {long_branch_residue}. count_taxa c < 4})"
proof -
  have a: "\<not> istip long_node \<and> ident long_node \<noteq> 0 \<and> nchildren long_node \<noteq> 1 \<and>
      children long_node = long_child0 # long_child1 # [] \<and> length_n long_node > 2 \<and>
      \<not> istip long_child0 \<and> \<not> istip long_child1 \<and> sample_fadd (length_n long_child0) (length_n long_child1) > 2"
    by code_simp
  have b: "cut_scan sample_fadd sample_tostring sample_fmt 2 long_branch_tree 0 [] [] [long_node] =
     Some (Inr (long_branch_residue, 1, [long_child0],
                [(sample_tostring long_child1, cut_reason1 sample_fmt 2 long_node long_child0)], True))"
    by code_simp
  have c: "cut_loop sample_fadd sample_tostring sample_fmt PREORDER 2 long_branch_tree 0 [] [] =
     Some (Inr (long_branch_residue, 1, [long_child0],
                [(sample_tostring long_child1, cut_reason1 sample_fmt 2 long_node long_child0)]))"
    by code_simp
  have d: "lookup long_branch_residue 1 = Some long_branch_residue"
    by code_simp
  note t = cut_candidates_kept_iff_four_taxa[of long_node 0 long_child0 long_child1 "[]" 2
      sample_fadd sample_tostring sample_fmt long_branch_tree "[]" "[]" "[]" long_branch_residue 1 "[long_child0]"
      "[(sample_tostring long_child1, cut_reason1 sample_fmt 2 long_node long_child0)]" True
      PREORDER long_branch_residue 1 "[long_child0]"
      "[(sample_tostring long_child1, cut_reason1 sample_fmt 2 long_node long_child0)]" long_branch_residue]
  from a b have ab: "\<not> istip long_node \<and> ident long_node \<noteq> 0 \<and> nchildren long_node \<noteq> 1 \<and>
      children long_node = long_child0 # long_child1 # [] \<and> length_n long_node > 2 \<and>
      \<not> istip long_child0 \<and> \<not> istip long_child1 \<and> sample_fadd (length_n long_child0) (length_n long_child1) > 2 \<and>
      cut_scan sample_fadd sample_tostring sample_fmt 2 long_branch_tree 0 [] [] [long_node] =
     Some (Inr (long_branch_residue, 1, [long_child0],
                [(sample_tostring long_child1, cut_reason1 sample_fmt 2 long_node long_child0)], True))"
    by (simp only: simp_thms)
  from c d have cd: "cut_loop sample_fadd sample_tostring sample_fmt PREORDER 2 long_branch_tree 0 [] [] =
     Some (Inr (long_branch_residue, 1, [long_child0],
                [(sample_tostring long_child1, cut_reason1 sample_fmt 2 long_node long_child0)])) \<and>
     lookup long_branch_residue 1 = Some long_branch_residue"
    by (rule conjI)
  note r1 = t[THEN conjunct1, THEN mp, OF ab]
  note r2 = t[THEN conjunct2, THEN mp, OF cd]
  show ?thesis
    by (rule conjI[OF b conjI[OF r1[THEN conjunct1] conjI[OF r1[THEN conjunct2] r2]]])
qed

section \<open>The node the rerooting picks\<close>

lemma mono_scan_find:
  "mono_scan T rt outgroups nodes =
     (case find (code_qualifies rt outgroups) (filter (\<lambda>n. ident n \<noteq> ident rt) nodes) of
        None \<Rightarrow> None
      | Some n \<Rightarrow> map_option ident (parent T (ident n)))"
  by (induction nodes) (auto simp: code_qualifies_def Let_def)

lemma leaves_nonempty: "leaves n \<noteq> []"
proof (induction n)
  case (Node i l b cs)
  show ?case
  proof (cases cs)
    case Nil
    then show ?thesis by simp
  next
    case (Cons c cs')
    with Node[of c] show ?thesis by auto
  qed
qed

lemma leaves_subtree:
  "n \<in> set (iternodes ord r) \<Longrightarrow> set (leaves n) \<subseteq> set (leaves r)"
proof (induction r)
  case (Node i l b cs)
  show ?case
  proof (cases "n = Node i l b cs")
    case True
    then show ?thesis by simp
  next
    case False
    with Node.prems obtain c where c: "c \<in> set cs" "n \<in> set (iternodes ord c)"
      by (auto split: if_splits)
    with Node.IH have "set (leaves n) \<subseteq> set (leaves c)" by blast
    with c show ?thesis by auto
  qed
qed

lemma length_filter_zero: "length (filter P xs) = 0 \<longleftrightarrow> list_all (\<lambda>x. \<not> P x) xs"
  by (induction xs) auto

lemma length_filter_pos: "length (filter P xs) > 0 \<longleftrightarrow> \<not> list_all (\<lambda>x. \<not> P x) xs"
  by (induction xs) auto

lemma back_labels_tips:
  assumes "distinct (get_front_labels r)" "set (leaves n) \<subseteq> set (leaves r)"
  shows "get_back_labels n r = map label (filter (\<lambda>t. t \<notin> set (leaves n)) (leaves r))"
proof -
  have inj: "inj_on label (set (leaves r))"
    using assms(1) by (simp add: get_front_labels_def distinct_map)
  have m: "t \<in> set (leaves r) \<Longrightarrow> (label t \<notin> set (get_front_labels n)) = (t \<notin> set (leaves n))" for t
    using inj assms(2) by (auto simp: get_front_labels_def inj_on_def)
  have "filter (\<lambda>l. l \<notin> set (get_front_labels n)) (get_front_labels r) =
        map label (filter (\<lambda>t. t \<notin> set (leaves n)) (leaves r))"
    unfolding get_front_labels_def[of r] filter_map comp_def
    using m by (metis (mono_tags, lifting) filter_cong)
  moreover have "distinct (filter (\<lambda>l. l \<notin> set (get_front_labels n)) (get_front_labels r))"
    using assms(1) by simp
  ultimately show ?thesis
    by (simp add: get_back_labels_def distinct_remdups_id)
qed

lemma code_qualifies_spec:
  assumes "distinct (get_front_labels r)" "n \<in> set (iternodes ord r)"
  shows "code_qualifies r outgroups n = spec_qualifies r outgroups n"
proof -
  have b: "get_back_labels n r = map label (filter (\<lambda>t. t \<notin> set (leaves n)) (leaves r))"
    using back_labels_tips[OF assms(1) leaves_subtree[OF assms(2)]] .
  have f: "leaves n \<noteq> []" by (rule leaves_nonempty)
  have e: "xs \<noteq> [] \<Longrightarrow> list_all P xs \<Longrightarrow> \<not> list_all (\<lambda>x. \<not> P x) xs" for P and xs :: "node list"
    by (cases xs) auto
  show ?thesis
    unfolding code_qualifies_def spec_qualifies_def Let_def get_front_names_def get_back_names_def b
      get_front_labels_def map_map filter_map length_map comp_def length_filter_zero length_filter_pos
    using f e by (auto simp: list_all_iff filter_empty_conv)
qed


text \<open>
  C3. On a tree with two or more outgroup tips (tip labels distinct, as a parsed tree has
  them), \<^verbatim>\<open>reroot_with_monophyletic_outgroups\<close> takes the first node other than the root,
  in the order of the traversal, whose front tips are all outgroup and whose back tips are
  all ingroup, or whose front tips are all ingroup and whose back tips are all outgroup
  (both sides non-empty), and reroots the tree on the parent of that node; when no node
  qualifies it returns \<^verbatim>\<open>None\<close>.
\<close>

theorem reroot_at_parent_of_first_qualifying:
  assumes "lookup T rt = Some r"
    and "distinct (get_front_labels r)"
    and "2 \<le> length (filter (\<lambda>leaf. get_name (label leaf) \<in> set outgroups) (leaves r))"
  shows "reroot_with_monophyletic_outgroups dflt T rt outgroups =
           (case find (spec_qualifies r outgroups) (filter (\<lambda>n. ident n \<noteq> rt) (iternodes dflt r)) of
              None \<Rightarrow> Inr None
            | Some n \<Rightarrow>
                (case parent T (ident n) of
                   None \<Rightarrow> Inr None
                 | Some p \<Rightarrow>
                     (case reroot T rt (ident p) of
                        Inl e \<Rightarrow> Inl e
                      | Inr res \<Rightarrow> Inr (Some res))))"
proof -
  have id: "ident r = rt"
    using assms(1) by (auto simp: lookup_def dest: find_Some_iff[THEN iffD1])
  have "find (code_qualifies r outgroups) (filter (\<lambda>n. ident n \<noteq> rt) (iternodes dflt r)) =
        find (spec_qualifies r outgroups) (filter (\<lambda>n. ident n \<noteq> rt) (iternodes dflt r))"
    by (rule find_cong[OF refl]) (simp add: code_qualifies_spec[OF assms(2), where ord=dflt])
  then have scan: "mono_scan T r outgroups (iternodes dflt r) =
      (case find (spec_qualifies r outgroups) (filter (\<lambda>n. ident n \<noteq> rt) (iternodes dflt r)) of
        None \<Rightarrow> None
      | Some n \<Rightarrow> map_option ident (parent T (ident n)))"
    by (simp add: mono_scan_find id)
  from assms(3) have "length (filter (\<lambda>leaf. get_name (label leaf) \<in> set outgroups) (leaves r)) \<noteq> 1"
    by simp
  with assms(1) scan show ?thesis
    by (simp add: reroot_with_monophyletic_outgroups_def Let_def split: option.splits)
qed

theorem reroot_at_parent_of_first_qualifying_witness:
  "find (spec_qualifies outgroup_pair_tree [''OUT1'', ''OUT2''])
      (filter (\<lambda>n. ident n \<noteq> 1) (iternodes PREORDER outgroup_pair_tree)) =
     Some (Node 6 '''' 0.05 [tip 7 ''OUT1'' 0.1, tip 8 ''OUT2'' 0.1]) \<and>
   map_option ident (parent outgroup_pair_tree 6) = Some 4 \<and>
   reroot_with_monophyletic_outgroups PREORDER outgroup_pair_tree 1 [''OUT1'', ''OUT2''] =
     Inr (Some (outgroup_pair_rerooted, 4))"
proof -
  have a: "lookup outgroup_pair_tree 1 = Some outgroup_pair_tree"
    by code_simp
  have b: "distinct (get_front_labels outgroup_pair_tree)"
    by code_simp
  have c: "2 \<le> length (filter (\<lambda>leaf. get_name (label leaf) \<in> set [''OUT1'', ''OUT2''])
                 (leaves outgroup_pair_tree))"
    by code_simp
  have d: "find (spec_qualifies outgroup_pair_tree [''OUT1'', ''OUT2''])
      (filter (\<lambda>n. ident n \<noteq> 1) (iternodes PREORDER outgroup_pair_tree)) =
     Some (Node 6 '''' 0.05 [tip 7 ''OUT1'' 0.1, tip 8 ''OUT2'' 0.1])"
    by code_simp
  have e: "parent outgroup_pair_tree 6 =
      Some (Node 4 '''' 0.35 [tip 5 ''B'' 0.2, Node 6 '''' 0.05 [tip 7 ''OUT1'' 0.1, tip 8 ''OUT2'' 0.1]])"
    by code_simp
  have f: "reroot outgroup_pair_tree 1 4 = Inr (outgroup_pair_rerooted, 4)"
    by code_simp
  show ?thesis
    using reroot_at_parent_of_first_qualifying[OF a b c, of PREORDER] d e f
    by simp
qed

section \<open>The store: nodes, identities, lookup\<close>

lemma iternodes_pre:
  "iternodes PREORDER (Node j l b cs) = Node j l b cs # concat (map (iternodes PREORDER) cs)"
  by simp

lemma ids_Node: "ids (Node j l b cs) = j # concat (map ids cs)"
  by (simp add: ids_def[abs_def] map_concat comp_def)

lemma self_in_nodes: "T \<in> set (iternodes PREORDER T)"
  by (cases T) simp

lemma ident_in_ids: "ident T \<in> set (ids T)"
  using self_in_nodes[of T] by (auto simp: ids_def)

lemma ids_nonempty: "ids T \<noteq> []"
  using ident_in_ids[of T] by auto

lemma child_in_nodes: "c \<in> set (children T) \<Longrightarrow> c \<in> set (iternodes PREORDER T)"
  using self_in_nodes[of c] by (cases T) auto

lemma nodes_trans:
  "n \<in> set (iternodes PREORDER m) \<Longrightarrow> m \<in> set (iternodes PREORDER T) \<Longrightarrow>
   n \<in> set (iternodes PREORDER T)"
proof (induction T)
  case (Node j l b cs)
  show ?case
  proof (cases "m = Node j l b cs")
    case True
    with Node.prems show ?thesis by simp
  next
    case False
    with Node.prems obtain c where c: "c \<in> set cs" "m \<in> set (iternodes PREORDER c)"
      by auto
    with Node.IH Node.prems(1) have "n \<in> set (iternodes PREORDER c)" by blast
    with c show ?thesis by auto
  qed
qed

lemma ids_subtree: "n \<in> set (iternodes PREORDER T) \<Longrightarrow> set (ids n) \<subseteq> set (ids T)"
  using nodes_trans[of _ n T] by (auto simp: ids_def)

lemma nodes_cases:
  "n \<in> set (iternodes PREORDER T) \<Longrightarrow>
   n = T \<or> (\<exists>c \<in> set (children T). n \<in> set (iternodes PREORDER c))"
  by (cases T) auto

lemma distinct_ids_children:
  assumes "distinct (ids T)" "c \<in> set (children T)"
  shows "distinct (ids c)" and "ident T \<notin> set (ids c)"
  using assms by (cases T; auto simp: ids_Node distinct_concat_iff)+

lemma distinct_ids_disjoint_aux:
  "distinct (concat (map ids cs)) \<Longrightarrow> c \<in> set cs \<Longrightarrow> d \<in> set cs \<Longrightarrow>
   i \<in> set (ids c) \<Longrightarrow> i \<in> set (ids d) \<Longrightarrow> c = d"
proof (induction cs)
  case Nil
  then show ?case by simp
next
  case (Cons x xs)
  then show ?case by (auto simp: disjoint_iff)
qed

lemma distinct_ids_disjoint:
  "distinct (ids T) \<Longrightarrow> c \<in> set (children T) \<Longrightarrow> d \<in> set (children T) \<Longrightarrow>
   i \<in> set (ids c) \<Longrightarrow> i \<in> set (ids d) \<Longrightarrow> c = d"
  using distinct_ids_disjoint_aux by (cases T) (auto simp: ids_Node)

lemma distinct_children: "distinct (ids T) \<Longrightarrow> distinct (children T)"
proof (cases T)
  case (Node j l b cs)
  assume "distinct (ids T)"
  with Node have "distinct (concat (map ids cs))" by (simp add: ids_Node)
  then have "distinct cs"
  proof (induction cs)
    case Nil
    then show ?case by simp
  next
    case (Cons x xs)
    then show ?case using ident_in_ids by (auto simp: disjoint_iff)
  qed
  with Node show ?thesis by simp
qed

lemma distinct_ids_subtree:
  "distinct (ids T) \<Longrightarrow> n \<in> set (iternodes PREORDER T) \<Longrightarrow> distinct (ids n)"
proof (induction T)
  case (Node j l b cs)
  show ?case
  proof (cases "n = Node j l b cs")
    case True
    with Node.prems show ?thesis by simp
  next
    case False
    with Node.prems obtain c where c: "c \<in> set cs" "n \<in> set (iternodes PREORDER c)"
      by auto
    from distinct_ids_children(1)[OF Node.prems(1), of c] c have "distinct (ids c)" by simp
    with Node.IH c show ?thesis by blast
  qed
qed

lemma nodes_inj:
  "distinct (ids T) \<Longrightarrow> a \<in> set (iternodes PREORDER T) \<Longrightarrow> b \<in> set (iternodes PREORDER T) \<Longrightarrow>
   ident a = ident b \<Longrightarrow> a = b"
  by (auto simp: ids_def distinct_map inj_on_def)

lemma find_unique:
  "distinct (map f xs) \<Longrightarrow> x \<in> set xs \<Longrightarrow> find (\<lambda>y. f y = f x) xs = Some x"
  by (induction xs) auto

lemma lookup_node:
  "distinct (ids T) \<Longrightarrow> n \<in> set (iternodes PREORDER T) \<Longrightarrow> lookup T (ident n) = Some n"
  unfolding lookup_def ids_def by (rule find_unique)

lemma lookup_self: "lookup T (ident T) = Some T"
  by (cases T) (simp add: lookup_def)

lemma lookup_Some:
  "lookup T i = Some n \<Longrightarrow> n \<in> set (iternodes PREORDER T) \<and> ident n = i"
  unfolding lookup_def by (auto simp: find_Some_iff)

lemma lookup_None: "lookup T i = None \<longleftrightarrow> i \<notin> set (ids T)"
  unfolding lookup_def ids_def by (auto simp: find_None_iff)

lemma lookup_child:
  assumes "distinct (ids T)" "c \<in> set (children T)" "i \<in> set (ids c)"
  shows "lookup T i = lookup c i"
proof -
  from assms(3) obtain n where n: "n \<in> set (iternodes PREORDER c)" "ident n = i"
    by (auto simp: ids_def)
  from distinct_ids_children(1)[OF assms(1,2)] n have "lookup c i = Some n"
    using lookup_node by blast
  moreover from n assms(2) have "n \<in> set (iternodes PREORDER T)"
    using nodes_trans child_in_nodes by blast
  with assms(1) n have "lookup T i = Some n"
    using lookup_node by blast
  ultimately show ?thesis by simp
qed

lemma parent_Some:
  "parent T i = Some p \<Longrightarrow> p \<in> set (iternodes PREORDER T) \<and> (\<exists>n \<in> set (children p). ident n = i)"
  unfolding parent_def by (auto simp: find_Some_iff)

lemma parent_None: "i \<notin> set (ids T) \<Longrightarrow> parent T i = None"
proof -
  assume a: "i \<notin> set (ids T)"
  have "\<not> (\<exists>p. p \<in> set (iternodes PREORDER T) \<and> i \<in> ident ` set (children p))"
  proof
    assume "\<exists>p. p \<in> set (iternodes PREORDER T) \<and> i \<in> ident ` set (children p)"
    then obtain p n where "p \<in> set (iternodes PREORDER T)" "n \<in> set (children p)" "ident n = i"
      by auto
    then have "n \<in> set (iternodes PREORDER T)"
      using nodes_trans child_in_nodes by blast
    with \<open>ident n = i\<close> a show False by (auto simp: ids_def)
  qed
  then show ?thesis unfolding parent_def by (simp add: find_None_iff)
qed

lemma parent_exists:
  assumes "n \<in> set (iternodes PREORDER T)" "n \<noteq> T"
  shows "\<exists>p \<in> set (iternodes PREORDER T). n \<in> set (children p)"
  using assms
proof (induction T)
  case (Node j l b cs)
  from Node.prems obtain c where c: "c \<in> set cs" "n \<in> set (iternodes PREORDER c)"
    by auto
  show ?case
  proof (cases "n = c")
    case True
    with c show ?thesis by auto
  next
    case False
    with Node.IH c obtain p where "p \<in> set (iternodes PREORDER c)" "n \<in> set (children p)"
      by blast
    with c show ?thesis by auto
  qed
qed

lemma parent_of_node:
  assumes "distinct (ids T)" "n \<in> set (iternodes PREORDER T)" "n \<noteq> T"
  shows "\<exists>p. parent T (ident n) = Some p \<and> p \<in> set (iternodes PREORDER T) \<and> n \<in> set (children p)"
proof -
  from parent_exists[OF assms(2,3)] obtain q where
    q: "q \<in> set (iternodes PREORDER T)" "n \<in> set (children q)" by blast
  then have "parent T (ident n) \<noteq> None"
    unfolding parent_def by (auto simp: find_None_iff)
  then obtain p where p: "parent T (ident n) = Some p" by auto
  from parent_Some[OF p] obtain n' where
    n': "p \<in> set (iternodes PREORDER T)" "n' \<in> set (children p)" "ident n' = ident n" by blast
  then have "n' \<in> set (iternodes PREORDER T)"
    using nodes_trans child_in_nodes by blast
  with assms(1,2) n' have "n' = n" using nodes_inj by blast
  with p n' show ?thesis by blast
qed


section \<open>Updating one object of the store\<close>

lemma update_at_top: "ident X = p \<Longrightarrow> update_at p f X = f X"
  by (cases X) simp

lemma update_at_other:
  "ident X \<noteq> p \<Longrightarrow>
   update_at p f X = Node (ident X) (label X) (length_n X) (map (update_at p f) (children X))"
  by (cases X) auto

lemma update_absent: "i \<notin> set (ids T) \<Longrightarrow> update_at i f T = T"
proof (induction T)
  case (Node j l b cs)
  then have "map (update_at i f) cs = cs"
    by (intro map_idI) (auto simp: ids_Node)
  with Node.prems show ?case by (auto simp: ids_Node)
qed

lemma ident_update_at:
  "(ident T = p \<Longrightarrow> ident (f T) = p) \<Longrightarrow> ident (update_at p f T) = ident T"
  by (cases T) auto

lemma update_decompose:
  assumes "distinct (ids (Node j l b cs))" "lookup (Node j l b cs) p = Some pn" "p \<noteq> j"
  shows "\<exists>xs c0 ys. cs = xs @ c0 # ys \<and> lookup c0 p = Some pn \<and>
           (\<forall>f. update_at p f (Node j l b cs) = Node j l b (xs @ update_at p f c0 # ys))"
proof -
  let ?T = "Node j l b cs"
  from lookup_Some[OF assms(2)] have pn: "pn \<in> set (iternodes PREORDER ?T)" "ident pn = p"
    by auto
  with assms(3) have "pn \<noteq> ?T" by auto
  with pn nodes_cases[of pn ?T] obtain c0 where c0: "c0 \<in> set cs" "pn \<in> set (iternodes PREORDER c0)"
    by auto
  then have pc0: "p \<in> set (ids c0)" using pn by (auto simp: ids_def)
  from c0 obtain xs ys where split: "cs = xs @ c0 # ys"
    by (auto simp: in_set_conv_decomp)
  have dc: "distinct cs" using distinct_children[OF assms(1)] by simp
  have other: "x \<in> set xs \<union> set ys \<Longrightarrow> update_at p f x = x" for x f
  proof -
    assume x: "x \<in> set xs \<union> set ys"
    with split dc have "x \<noteq> c0" by auto
    moreover from x split have "x \<in> set cs" by auto
    ultimately have "p \<notin> set (ids x)"
      using distinct_ids_disjoint[OF assms(1), of x c0 p] c0 pc0 by auto
    then show ?thesis by (rule update_absent)
  qed
  have "lookup c0 p = Some pn"
    using lookup_child[OF assms(1), of c0 p] c0 pc0 assms(2) by simp
  moreover have "update_at p f ?T = Node j l b (xs @ update_at p f c0 # ys)" for f
  proof -
    have "map (update_at p f) xs = xs" "map (update_at p f) ys = ys"
      using other by (auto intro: map_idI)
    with assms(3) split show ?thesis by simp
  qed
  ultimately show ?thesis using split by blast
qed

lemma lookup_top: "lookup (Node j l b cs) j = Some (Node j l b cs)"
  by (simp add: lookup_def)

lemma update_cong_at:
  "distinct (ids T) \<Longrightarrow> lookup T p = Some pn \<Longrightarrow> f pn = g pn \<Longrightarrow> update_at p f T = update_at p g T"
proof (induction T)
  case (Node j l b cs)
  show ?case
  proof (cases "p = j")
    case True
    with Node.prems(2) have pn: "pn = Node j l b cs" by (simp add: lookup_top)
    have "update_at p f (Node j l b cs) = f (Node j l b cs)" "update_at p g (Node j l b cs) = g (Node j l b cs)"
      using True by simp_all
    with Node.prems(3) pn show ?thesis by simp
  next
    case False
    from update_decompose[OF Node.prems(1,2) False] obtain xs c0 ys where
      d: "cs = xs @ c0 # ys" "lookup c0 p = Some pn"
      "\<And>f. update_at p f (Node j l b cs) = Node j l b (xs @ update_at p f c0 # ys)"
      by blast
    have "distinct (ids c0)" using distinct_ids_children(1)[OF Node.prems(1), of c0] d(1) by simp
    with Node.IH[of c0] d Node.prems(3) have "update_at p f c0 = update_at p g c0" by simp
    with d(3) show ?thesis by simp
  qed
qed

lemma size_update:
  "distinct (ids T) \<Longrightarrow> lookup T p = Some pn \<Longrightarrow> size (f pn) < size pn \<Longrightarrow>
   size (update_at p f T) < size T"
proof (induction T)
  case (Node j l b cs)
  show ?case
  proof (cases "p = j")
    case True
    with Node.prems(2) have pn: "pn = Node j l b cs" by (simp add: lookup_top)
    have "update_at p f (Node j l b cs) = f (Node j l b cs)"
      using True by simp
    with Node.prems(3) pn show ?thesis by simp
  next
    case False
    from update_decompose[OF Node.prems(1,2) False] obtain xs c0 ys where
      d: "cs = xs @ c0 # ys" "lookup c0 p = Some pn"
      "\<And>f. update_at p f (Node j l b cs) = Node j l b (xs @ update_at p f c0 # ys)"
      by blast
    have "distinct (ids c0)" using distinct_ids_children(1)[OF Node.prems(1), of c0] d(1) by simp
    with Node.IH[of c0] d Node.prems(3) have "size (update_at p f c0) < size c0" by simp
    with d(1,3) show ?thesis by simp
  qed
qed

lemma ids_update:
  "distinct (ids T) \<Longrightarrow> lookup T p = Some pn \<Longrightarrow>
   set (ids (update_at p f T)) = (set (ids T) - set (ids pn)) \<union> set (ids (f pn))"
proof (induction T)
  case (Node j l b cs)
  show ?case
  proof (cases "p = j")
    case True
    with Node.prems show ?thesis by (auto simp: lookup_top)
  next
    case False
    from update_decompose[OF Node.prems(1,2) False] obtain xs c0 ys where
      d: "cs = xs @ c0 # ys" "lookup c0 p = Some pn"
      "\<And>f. update_at p f (Node j l b cs) = Node j l b (xs @ update_at p f c0 # ys)"
      by blast
    have "distinct (ids c0)" using distinct_ids_children(1)[OF Node.prems(1), of c0] d(1) by simp
    with Node.IH[of c0] d have
      ih: "set (ids (update_at p f c0)) = (set (ids c0) - set (ids pn)) \<union> set (ids (f pn))" by simp
    from lookup_Some[OF d(2)] have sub: "set (ids pn) \<subseteq> set (ids c0)"
      using ids_subtree by blast
    from Node.prems(1) d(1) have disj:
      "j \<notin> set (ids c0)" "set (ids c0) \<inter> set (concat (map ids xs)) = {}"
      "set (ids c0) \<inter> set (concat (map ids ys)) = {}"
      by (auto simp: ids_Node)
    show ?thesis
      unfolding d(3) using ih sub disj d(1) by (auto simp: ids_Node)
  qed
qed

lemma distinct_update:
  "distinct (ids T) \<Longrightarrow> lookup T p = Some pn \<Longrightarrow> distinct (ids (f pn)) \<Longrightarrow>
   set (ids (f pn)) \<subseteq> set (ids pn) \<Longrightarrow> distinct (ids (update_at p f T))"
proof (induction T)
  case (Node j l b cs)
  show ?case
  proof (cases "p = j")
    case True
    with Node.prems show ?thesis by (auto simp: lookup_top)
  next
    case False
    from update_decompose[OF Node.prems(1,2) False] obtain xs c0 ys where
      d: "cs = xs @ c0 # ys" "lookup c0 p = Some pn"
      "\<And>f. update_at p f (Node j l b cs) = Node j l b (xs @ update_at p f c0 # ys)"
      by blast
    have dc0: "distinct (ids c0)" using distinct_ids_children(1)[OF Node.prems(1), of c0] d(1) by simp
    with Node.IH[of c0] d Node.prems(3,4) have ih: "distinct (ids (update_at p f c0))" by simp
    from lookup_Some[OF d(2)] have "set (ids pn) \<subseteq> set (ids c0)"
      using ids_subtree by blast
    with ids_update[OF dc0 d(2), of f] Node.prems(4) have sub: "set (ids (update_at p f c0)) \<subseteq> set (ids c0)"
      by auto
    from Node.prems(1) d(1) have "distinct (j # concat (map ids xs) @ ids c0 @ concat (map ids ys))"
      by (simp add: ids_Node)
    with ih sub have "distinct (j # concat (map ids xs) @ ids (update_at p f c0) @ concat (map ids ys))"
      by auto
    then show ?thesis unfolding d(3) by (simp add: ids_Node)
  qed
qed

lemma node_update:
  "distinct (ids T) \<Longrightarrow> lookup T p = Some pn \<Longrightarrow> f pn \<in> set (iternodes PREORDER (update_at p f T))"
proof (induction T)
  case (Node j l b cs)
  show ?case
  proof (cases "p = j")
    case True
    with Node.prems show ?thesis using self_in_nodes by (auto simp: lookup_top)
  next
    case False
    from update_decompose[OF Node.prems(1,2) False] obtain xs c0 ys where
      d: "cs = xs @ c0 # ys" "lookup c0 p = Some pn"
      "\<And>f. update_at p f (Node j l b cs) = Node j l b (xs @ update_at p f c0 # ys)"
      by blast
    have dc0: "distinct (ids c0)" using distinct_ids_children(1)[OF Node.prems(1), of c0] d(1) by simp
    with Node.IH[of c0] d have "f pn \<in> set (iternodes PREORDER (update_at p f c0))" by simp
    then show ?thesis unfolding d(3) by simp
  qed
qed

lemma lookup_update:
  assumes "distinct (ids T)" "lookup T p = Some pn" "distinct (ids (f pn))"
    "set (ids (f pn)) \<subseteq> set (ids pn)" "ident (f pn) = p"
  shows "lookup (update_at p f T) p = Some (f pn)"
proof -
  have "distinct (ids (update_at p f T))"
    using assms(1-4) by (rule distinct_update)
  moreover have "f pn \<in> set (iternodes PREORDER (update_at p f T))"
    using assms(1,2) by (rule node_update)
  ultimately have "lookup (update_at p f T) (ident (f pn)) = Some (f pn)"
    by (rule lookup_node)
  with assms(5) show ?thesis by simp
qed

lemma update_compose:
  "(\<And>x. ident x = p \<Longrightarrow> ident (f x) = p) \<Longrightarrow>
   update_at p g (update_at p f T) = update_at p (\<lambda>x. g (f x)) T"
proof (induction T)
  case (Node j l b cs)
  show ?case
  proof (cases "p = j")
    case True
    with Node.prems[of "Node j l b cs"] show ?thesis by (simp add: update_at_top)
  next
    case False
    with Node show ?thesis by simp
  qed
qed

lemma update_inside:
  "distinct (ids T) \<Longrightarrow> lookup T p = Some pn \<Longrightarrow> i \<in> set (ids pn) \<Longrightarrow> i \<noteq> p \<Longrightarrow>
   update_at i h T = update_at p (update_at i h) T"
proof (induction T)
  case (Node j l b cs)
  show ?case
  proof (cases "p = j")
    case True
    then show ?thesis by simp
  next
    case False
    from update_decompose[OF Node.prems(1,2) False] obtain xs c0 ys where
      d: "cs = xs @ c0 # ys" "lookup c0 p = Some pn"
      "\<And>f. update_at p f (Node j l b cs) = Node j l b (xs @ update_at p f c0 # ys)"
      by blast
    have dc0: "distinct (ids c0)" using distinct_ids_children(1)[OF Node.prems(1), of c0] d(1) by simp
    from lookup_Some[OF d(2)] have "set (ids pn) \<subseteq> set (ids c0)"
      using ids_subtree by blast
    with Node.prems(3) have ic0: "i \<in> set (ids c0)" by auto
    have ij: "i \<noteq> j" using distinct_ids_children(2)[OF Node.prems(1), of c0] d(1) ic0 by auto
    have "lookup (Node j l b cs) i = lookup c0 i"
      using lookup_child[OF Node.prems(1), of c0 i] d(1) ic0 by simp
    moreover from ic0 have "lookup c0 i \<noteq> None" by (simp add: lookup_None)
    ultimately obtain n where n: "lookup (Node j l b cs) i = Some n" "lookup c0 i = Some n" by auto
    from update_decompose[OF Node.prems(1) n(1) ij] obtain xs' c0' ys' where
      d': "cs = xs' @ c0' # ys'" "lookup c0' i = Some n"
      "\<And>f. update_at i f (Node j l b cs) = Node j l b (xs' @ update_at i f c0' # ys')"
      by blast
    have "i \<in> set (ids c0')" using d'(2) by (metis lookup_None option.distinct(1))
    moreover have "c0' \<in> set cs" using d'(1) by simp
    moreover have "c0 \<in> set cs" using d(1) by simp
    ultimately have "c0' = c0"
      using distinct_ids_disjoint[OF Node.prems(1), of c0' c0 i] ic0 by simp
    moreover have "distinct cs" using distinct_children[OF Node.prems(1)] by simp
    ultimately have same: "xs' = xs \<and> ys' = ys"
      using d(1) d'(1) by (metis append_Cons_eq_iff distinct.simps(2) distinct_append not_distinct_conv_prefix)
    from Node.IH[of c0] d dc0 Node.prems(3,4) have "update_at i h c0 = update_at p (update_at i h) c0"
      by simp
    with d(3) d'(3) same \<open>c0' = c0\<close> show ?thesis by simp
  qed
qed


section \<open>Splicing a child into the place of its parent\<close>

lemma remove_id_split:
  "\<forall>x \<in> set xs. ident x \<noteq> i \<Longrightarrow> ident k = i \<Longrightarrow> remove_id i (xs @ k # ys) = xs @ ys"
  by (induction xs) auto

lemma remove_id_subset: "set (remove_id i cs) \<subseteq> set cs"
  by (induction cs) auto

lemma children_split:
  assumes "distinct (ids par)" "k \<in> set (children par)"
  shows "\<exists>xs ys. children par = xs @ k # ys \<and> remove_id (ident k) (children par) = xs @ ys \<and>
           k \<notin> set xs \<and> k \<notin> set ys \<and>
           (\<forall>x \<in> set xs \<union> set ys. set (ids x) \<inter> set (ids k) = {})"
proof -
  from assms(2) obtain xs ys where split: "children par = xs @ k # ys"
    by (auto simp: in_set_conv_decomp)
  have dc: "distinct (children par)" using distinct_children[OF assms(1)] .
  with split have notin: "k \<notin> set xs" "k \<notin> set ys" by auto
  have disj: "set (ids x) \<inter> set (ids k) = {}" if "x \<in> set xs \<union> set ys" for x
  proof -
    from that split notin have "x \<in> set (children par)" "x \<noteq> k" by auto
    then show ?thesis
      using distinct_ids_disjoint[OF assms(1), of x k] assms(2) by auto
  qed
  have "\<forall>x \<in> set xs. ident x \<noteq> ident k"
  proof
    fix x assume "x \<in> set xs"
    with disj[of x] ident_in_ids[of x] ident_in_ids[of k] show "ident x \<noteq> ident k"
      by (metis UnI1 disjoint_iff)
  qed
  then have "remove_id (ident k) (xs @ k # ys) = xs @ ys"
    by (rule remove_id_split) simp
  with split notin disj show ?thesis by auto
qed

lemma ids_set_length [simp]: "ids (set_length len c) = ids c"
  by (cases c) (simp add: set_length_def ids_Node)

lemma ident_set_length [simp]: "ident (set_length len c) = ident c"
  by (simp add: set_length_def)

lemma ident_set_children [simp]: "ident (set_children cs c) = ident c"
  by (simp add: set_children_def)

lemma children_set_children [simp]: "children (set_children cs c) = cs"
  by (simp add: set_children_def)

lemma ids_set_children: "ids (set_children cs c) = ident c # concat (map ids cs)"
  by (simp add: set_children_def ids_Node)

lemma ids_children: "ids par = ident par # concat (map ids (children par))"
  by (cases par) (simp add: ids_Node)

lemma remove_kink_at_kink:
  assumes "distinct (ids T)" "lookup T n = Some kink" "children kink = c # rest"
    and "parent T n = Some par" "lookup T curroot = Some r" "n = curroot \<longrightarrow> nchildren r \<noteq> 2"
  shows "kink \<in> set (children par) \<and>
         remove_kink fadd T n curroot =
           Inr (update_at (ident par) (\<lambda>_. splice par n c (fadd (length_n kink) (length_n c))) T,
                ident c, curroot)"
proof -
  let ?P = "ident par"
  let ?len = "fadd (length_n kink) (length_n c)"
  from lookup_Some[OF assms(2)] have kink: "kink \<in> set (iternodes PREORDER T)" "ident kink = n"
    by auto
  from parent_Some[OF assms(4)] obtain k' where
    par: "par \<in> set (iternodes PREORDER T)" and k': "k' \<in> set (children par)" "ident k' = n"
    by blast
  from par k' have "k' \<in> set (iternodes PREORDER T)"
    using nodes_trans child_in_nodes by blast
  with assms(1) kink k' have "k' = kink" using nodes_inj by blast
  with k' have kc: "kink \<in> set (children par)" by simp
  have lpar: "lookup T ?P = Some par" using lookup_node[OF assms(1) par] .
  have dpar: "distinct (ids par)" using distinct_ids_subtree[OF assms(1) par] .
  from children_split[OF dpar kc] kink obtain xs ys where
    split: "children par = xs @ kink # ys" "remove_id n (children par) = xs @ ys"
    and disj: "\<forall>x \<in> set xs \<union> set ys. set (ids x) \<inter> set (ids kink) = {}"
    by auto
  have idk: "ids kink = n # ids c @ concat (map ids rest)"
    using ids_children[of kink] assms(3) kink by simp
  have cP: "ident c \<noteq> ?P"
  proof
    assume "ident c = ?P"
    then have "?P \<in> set (ids kink)" using idk ident_in_ids[of c] by auto
    moreover have "?P \<notin> set (ids kink)"
      using distinct_ids_children(2)[OF dpar kc] .
    ultimately show False by simp
  qed
  let ?g = "\<lambda>x. set_children (remove_id n (children x)) x"
  let ?a = "\<lambda>x. set_children (children x @ [c]) x"
  let ?h = "set_length ?len"
  let ?k = "\<lambda>x. ?a (?g x)"
  have root: "remove_kink_root T n curroot = Inr (T, curroot)"
    using assms(5,6) by (auto simp: remove_kink_root_def)
  have rc: "remove_child T ?P n = Inr (update_at ?P ?g T)"
    using lpar kc kink by (auto simp: remove_child_def)
  have T3: "add_child (update_at ?P ?g T) ?P c = update_at ?P ?k T"
    unfolding add_child_def by (rule update_compose) simp
  have kpar: "?k par = set_children (xs @ ys @ [c]) par"
    using split by (simp add: set_children_def)
  have idspar: "ids par = ?P # concat (map ids xs) @ ids kink @ concat (map ids ys)"
    using ids_children[of par] split by simp
  have dk: "distinct (ids (?k par))" "set (ids (?k par)) \<subseteq> set (ids par)"
    using dpar unfolding kpar ids_set_children idspar idk by auto
  have d3: "distinct (ids (update_at ?P ?k T))"
    using assms(1) lpar dk by (rule distinct_update)
  have l3: "lookup (update_at ?P ?k T) ?P = Some (?k par)"
    using assms(1) lpar dk by (rule lookup_update) simp
  have cin: "ident c \<in> set (ids (?k par))"
    unfolding kpar ids_set_children using ident_in_ids[of c] by simp
  have "update_at (ident c) ?h (update_at ?P ?k T) =
        update_at ?P (update_at (ident c) ?h) (update_at ?P ?k T)"
    using d3 l3 cin cP by (rule update_inside)
  also have "\<dots> = update_at ?P (\<lambda>x. update_at (ident c) ?h (?k x)) T"
    by (rule update_compose) simp
  also have "\<dots> = update_at ?P (\<lambda>_. splice par n c ?len) T"
  proof (rule update_cong_at[OF assms(1) lpar])
    have nc: "ident c \<notin> set (ids x)" if "x \<in> set xs \<union> set ys" for x
      using disj that idk ident_in_ids[of c] by (metis Un_iff disjoint_iff in_set_conv_decomp list.set_intros(2) set_append)
    have "map (update_at (ident c) ?h) (xs @ ys) = xs @ ys"
      using nc by (intro map_idI update_absent) auto
    then have e: "update_at (ident c) ?h (set_children (xs @ ys @ [c]) par) =
        set_children (xs @ ys @ [?h c]) par"
      using cP by (simp add: set_children_def update_at_top)
    have "splice par n c ?len = set_children (xs @ ys @ [?h c]) par"
      by (simp add: splice_def split(2))
    with e kpar show "update_at (ident c) ?h (?k par) = splice par n c ?len"
      by simp
  qed
  finally have T4: "update_at (ident c) ?h (update_at ?P ?k T) =
      update_at ?P (\<lambda>_. splice par n c ?len) T" .
  have "remove_kink fadd T n curroot =
      Inr (update_at (ident c) ?h (update_at ?P ?k T), ident c, curroot)"
    using root assms(2,3,4) rc T3 by (simp add: remove_kink_def Let_def)
  with T4 kc show ?thesis by simp
qed


lemma splice_facts:
  assumes "distinct (ids par)" "kink \<in> set (children par)" "children kink = c # rest" "ident kink = n"
  shows "distinct (ids (splice par n c len))"
    and "set (ids (splice par n c len)) \<subseteq> set (ids par)"
    and "n \<notin> set (ids (splice par n c len))"
    and "ident (splice par n c len) = ident par"
    and "size (splice par n c len) < size par"
    and "set (ids c) \<subseteq> set (ids (splice par n c len))"
    and "\<forall>x \<in> set rest. set (ids x) \<inter> set (ids (splice par n c len)) = {}"
proof -
  from children_split[OF assms(1,2)] assms(4) obtain xs ys where
    split: "children par = xs @ kink # ys" "remove_id n (children par) = xs @ ys"
    and disj: "\<forall>x \<in> set xs \<union> set ys. set (ids x) \<inter> set (ids kink) = {}"
    by auto
  have idk: "ids kink = n # ids c @ concat (map ids rest)"
    using ids_children[of kink] assms(3,4) by simp
  have idspar: "ids par = ident par # concat (map ids xs) @ ids kink @ concat (map ids ys)"
    using ids_children[of par] split by simp
  have ids: "ids (splice par n c len) = ident par # concat (map ids xs) @ concat (map ids ys) @ ids c"
    by (simp add: splice_def split(2) ids_set_children)
  show "distinct (ids (splice par n c len))"
    using assms(1) unfolding ids idspar idk by auto
  show "set (ids (splice par n c len)) \<subseteq> set (ids par)"
    unfolding ids idspar idk by auto
  show "n \<notin> set (ids (splice par n c len))"
    using assms(1) unfolding ids idspar idk by auto
  show "ident (splice par n c len) = ident par"
    by (simp add: splice_def)
  have "size par = Suc (size_list size (children par))" by (cases par) simp
  moreover have "size (splice par n c len) = Suc (size_list size (xs @ ys @ [set_length len c]))"
    by (simp add: splice_def split(2) set_children_def)
  moreover have "size (set_length len c) = size c" by (cases c) (simp add: set_length_def)
  moreover have "size kink = Suc (size_list size (c # rest))" using assms(3) by (cases kink) simp
  ultimately show "size (splice par n c len) < size par"
    using split(1) by simp
  show "set (ids c) \<subseteq> set (ids (splice par n c len))"
    unfolding ids by auto
  show "\<forall>x \<in> set rest. set (ids x) \<inter> set (ids (splice par n c len)) = {}"
    using assms(1) unfolding ids idspar idk by auto
qed

text \<open>
  C7. When \<^verbatim>\<open>remove_kink\<close> is called on a node with exactly one child that hangs under
  a parent, the call returns the child as the new node; in the new store the child's
  length is the kink's length plus the child's former length, the kink is gone, and the
  parent's child list is the former one with the kink removed and the child appended.
\<close>

theorem remove_kink_length_sum:
  assumes "distinct (ids T)"
    and "lookup T n = Some kink" and "children kink = [c]"
    and "parent T n = Some par"
    and "lookup T curroot = Some r"
  shows "\<exists>T'. remove_kink fadd T n curroot = Inr (T', ident c, curroot) \<and>
              lookup T' (ident c) = Some (set_length (fadd (length_n kink) (length_n c)) c) \<and>
              lookup T' (ident par) =
                Some (set_children
                        (remove_id n (children par) @ [set_length (fadd (length_n kink) (length_n c)) c]) par) \<and>
              lookup T' n = None"
proof -
  let ?len = "fadd (length_n kink) (length_n c)"
  let ?S = "splice par n c ?len"
  let ?T' = "update_at (ident par) (\<lambda>_. ?S) T"
  have nk: "ident kink = n" using lookup_Some[OF assms(2)] by simp
  have "n = curroot \<longrightarrow> nchildren r \<noteq> 2"
    using assms(2,3,5) by (auto simp: nchildren_def)
  from remove_kink_at_kink[OF assms(1,2,3,4,5) this]
  have kc: "kink \<in> set (children par)"
    and rk: "remove_kink fadd T n curroot = Inr (?T', ident c, curroot)"
    by auto
  from parent_Some[OF assms(4)] have par: "par \<in> set (iternodes PREORDER T)" by simp
  have lpar: "lookup T (ident par) = Some par" using lookup_node[OF assms(1) par] .
  have dpar: "distinct (ids par)" using distinct_ids_subtree[OF assms(1) par] .
  note sf = splice_facts[OF dpar kc assms(3) nk, of ?len]
  have dT': "distinct (ids ?T')"
    using assms(1) lpar sf(1,2) by (rule distinct_update)
  have lS: "lookup ?T' (ident par) = Some ?S"
    using assms(1) lpar sf(1,2,4) by (rule lookup_update)
  have "set_length ?len c \<in> set (children ?S)"
    by (simp add: splice_def)
  then have "set_length ?len c \<in> set (iternodes PREORDER ?T')"
    using lookup_Some[OF lS] nodes_trans child_in_nodes by blast
  from lookup_node[OF dT' this] have lc: "lookup ?T' (ident c) = Some (set_length ?len c)"
    by simp
  have "n \<in> set (ids par)"
    using kc nk ident_in_ids[of kink] ids_children[of par] by auto
  then have "n \<notin> set (ids ?T')"
    using ids_update[OF assms(1) lpar, of "\<lambda>_. ?S"] sf(3) by auto
  then have ln: "lookup ?T' n = None" by (simp add: lookup_None)
  from rk lc lS ln show ?thesis
    by (auto simp: splice_def)
qed

theorem remove_kink_length_sum_witness:
  "\<exists>T'. remove_kink sample_fadd kink_tree 3 0 = Inr (T', 1, 0) \<and>
        lookup T' 1 = Some (tip 1 ''A.1'' 6) \<and>
        lookup T' 0 = Some (Node 0 '''' 0 [tip 2 ''B.1'' 2, tip 4 ''C.1'' 2, tip 1 ''A.1'' 6]) \<and>
        lookup T' 3 = None"
proof -
  have a: "distinct (ids kink_tree)"
    by code_simp
  have b: "lookup kink_tree 3 = Some (Node 3 '''' 5 [tip 1 ''A.1'' 1])"
    by code_simp
  have c: "children (Node 3 '''' 5 [tip 1 ''A.1'' 1]) = [tip 1 ''A.1'' 1]"
    by simp
  have d: "parent kink_tree 3 = Some kink_tree"
    by code_simp
  have e: "lookup kink_tree 0 = Some kink_tree"
    by code_simp
  have f: "set_length (sample_fadd (length_n (Node 3 '''' 5 [tip 1 ''A.1'' 1])) (length_n (tip 1 ''A.1'' 1))) (tip 1 ''A.1'' 1) =
      tip 1 ''A.1'' 6"
    by code_simp
  have g: "set_children (remove_id 3 (children kink_tree) @ [tip 1 ''A.1'' 6]) kink_tree =
      Node 0 '''' 0 [tip 2 ''B.1'' 2, tip 4 ''C.1'' 2, tip 1 ''A.1'' 6]"
    by code_simp
  have h: "ident (tip 1 ''A.1'' 1) = 1" "ident kink_tree = 0"
    by code_simp+
  show ?thesis
    using remove_kink_length_sum[OF a b c d e, of sample_fadd] unfolding f g h .
qed

section \<open>Front names\<close>

lemma names_Node:
  "get_front_names (Node i l b cs) =
     (if cs = [] then [get_name l] else concat (map get_front_names cs))"
  by (simp add: get_front_names_def[abs_def] get_front_labels_def[abs_def] map_concat comp_def)

lemma names_children:
  "children n \<noteq> [] \<Longrightarrow> get_front_names n = concat (map get_front_names (children n))"
  by (cases n) (simp add: names_Node)

lemma names_child_subset:
  "c \<in> set (children n) \<Longrightarrow> set (get_front_names c) \<subseteq> set (get_front_names n)"
  by (cases n) (auto simp: names_Node)

lemma names_set_length [simp]: "get_front_names (set_length len c) = get_front_names c"
  by (cases c) (simp add: set_length_def names_Node)

lemma names_nonempty: "get_front_names n \<noteq> []"
  using leaves_nonempty[of n] by (simp add: get_front_names_def get_front_labels_def)

section \<open>Binary subtrees\<close>

lemma binary_set_length [simp]: "binary (set_length len c) = binary c"
  by (cases c) (simp add: set_length_def)

lemma binary_children:
  "binary n \<Longrightarrow> children n = [] \<or> (length (children n) = 2 \<and> (\<forall>c \<in> set (children n). binary c))"
  by (cases n) auto

lemma binary_subtree: "binary T \<Longrightarrow> n \<in> set (iternodes PREORDER T) \<Longrightarrow> binary n"
proof (induction T)
  case (Node j l b cs)
  show ?case
  proof (cases "n = Node j l b cs")
    case True
    with Node.prems show ?thesis by simp
  next
    case False
    with Node.prems obtain c where c: "c \<in> set cs" "n \<in> set (iternodes PREORDER c)"
      by auto
    with Node.prems(1) have "binary c" by auto
    with Node.IH c show ?thesis by blast
  qed
qed

lemma binary_update:
  "distinct (ids T) \<Longrightarrow> lookup T p = Some pn \<Longrightarrow> binary T \<Longrightarrow> binary (f pn) \<Longrightarrow>
   binary (update_at p f T)"
proof (induction T)
  case (Node j l b cs)
  show ?case
  proof (cases "p = j")
    case True
    with Node.prems(2) have pn: "pn = Node j l b cs" by (simp add: lookup_top)
    have "update_at p f (Node j l b cs) = f (Node j l b cs)"
      using True by simp
    with Node.prems(4) pn show ?thesis by simp
  next
    case False
    from update_decompose[OF Node.prems(1,2) False] obtain xs c0 ys where
      d: "cs = xs @ c0 # ys" "lookup c0 p = Some pn"
      "\<And>f. update_at p f (Node j l b cs) = Node j l b (xs @ update_at p f c0 # ys)"
      by blast
    have "distinct (ids c0)" using distinct_ids_children(1)[OF Node.prems(1), of c0] d(1) by simp
    moreover have "binary c0" using Node.prems(3) d(1) by auto
    ultimately have "binary (update_at p f c0)"
      using Node.IH[of c0] d Node.prems(4) by simp
    with Node.prems(3) d(1) show ?thesis unfolding d(3) by auto
  qed
qed

lemma names_update:
  "distinct (ids T) \<Longrightarrow> lookup T p = Some pn \<Longrightarrow>
   set (get_front_names (f pn)) \<subseteq> set (get_front_names pn) \<Longrightarrow>
   set (get_front_names (update_at p f T)) \<subseteq> set (get_front_names T)"
proof (induction T)
  case (Node j l b cs)
  show ?case
  proof (cases "p = j")
    case True
    with Node.prems(2) have pn: "pn = Node j l b cs" by (simp add: lookup_top)
    have "update_at p f (Node j l b cs) = f (Node j l b cs)"
      using True by simp
    with Node.prems(3) pn show ?thesis by simp
  next
    case False
    from update_decompose[OF Node.prems(1,2) False] obtain xs c0 ys where
      d: "cs = xs @ c0 # ys" "lookup c0 p = Some pn"
      "\<And>f. update_at p f (Node j l b cs) = Node j l b (xs @ update_at p f c0 # ys)"
      by blast
    have "distinct (ids c0)" using distinct_ids_children(1)[OF Node.prems(1), of c0] d(1) by simp
    then have ih: "set (get_front_names (update_at p f c0)) \<subseteq> set (get_front_names c0)"
      using Node.IH[of c0] d Node.prems(3) by simp
    have e: "get_front_names (update_at p f (Node j l b cs)) =
        concat (map get_front_names xs) @ get_front_names (update_at p f c0) @
        concat (map get_front_names ys)"
      unfolding d(3) by (simp add: names_Node)
    have e2: "get_front_names (Node j l b cs) =
        concat (map get_front_names xs) @ get_front_names c0 @ concat (map get_front_names ys)"
      unfolding d(1) by (simp add: names_Node)
    show ?thesis unfolding e e2 using ih by auto
  qed
qed

section \<open>The parent of a node is unique\<close>

lemma size_subtree: "n \<in> set (iternodes PREORDER T) \<Longrightarrow> size n \<le> size T"
proof (induction T)
  case (Node j l b cs)
  show ?case
  proof (cases "n = Node j l b cs")
    case True
    then show ?thesis by simp
  next
    case False
    with Node.prems obtain c where c: "c \<in> set cs" "n \<in> set (iternodes PREORDER c)"
      by auto
    with Node.IH have "size n \<le> size c" by blast
    moreover from c(1) have "size c \<le> size_list size cs"
      by (simp add: size_list_estimation')
    ultimately show ?thesis by simp
  qed
qed

lemma size_child: "c \<in> set (children n) \<Longrightarrow> size c < size n"
proof (cases n)
  case (Node j l b cs)
  assume "c \<in> set (children n)"
  with Node have "size c \<le> size_list size cs" by (simp add: size_list_estimation')
  with Node show ?thesis by simp
qed

lemma parent_unique:
  "distinct (ids T) \<Longrightarrow> p \<in> set (iternodes PREORDER T) \<Longrightarrow> q \<in> set (iternodes PREORDER T) \<Longrightarrow>
   n \<in> set (children p) \<Longrightarrow> n \<in> set (children q) \<Longrightarrow> p = q"
proof (induction T arbitrary: p q)
  case (Node j l b cs)
  let ?T = "Node j l b cs"
  have top_sub: False
    if "n \<in> set cs" "c \<in> set cs" "r \<in> set (iternodes PREORDER c)" "n \<in> set (children r)" for c r
  proof -
    from that(3,4) have nc: "n \<in> set (iternodes PREORDER c)"
      using nodes_trans child_in_nodes by blast
    then have "ident n \<in> set (ids c)" by (auto simp: ids_def)
    with that(1,2) have "n = c"
      using distinct_ids_disjoint[OF Node.prems(1), of n c "ident n"] ident_in_ids[of n] by simp
    with that(3,4) size_subtree[of r c] size_child[of n r] show False by simp
  qed
  show ?case
  proof (cases "p = ?T")
    case True
    show ?thesis
    proof (cases "q = ?T")
      case True
      with \<open>p = ?T\<close> show ?thesis by simp
    next
      case False
      with Node.prems(3) obtain c where "c \<in> set cs" "q \<in> set (iternodes PREORDER c)" by auto
      with top_sub[of c q] Node.prems(4,5) True show ?thesis by simp
    qed
  next
    case False
    with Node.prems(2) obtain c where c: "c \<in> set cs" "p \<in> set (iternodes PREORDER c)" by auto
    show ?thesis
    proof (cases "q = ?T")
      case True
      with top_sub[of c p] Node.prems(4,5) c show ?thesis by simp
    next
      case False
      with Node.prems(3) obtain d where d: "d \<in> set cs" "q \<in> set (iternodes PREORDER d)" by auto
      from c Node.prems(4) have "n \<in> set (iternodes PREORDER c)"
        using nodes_trans child_in_nodes by blast
      moreover from d Node.prems(5) have "n \<in> set (iternodes PREORDER d)"
        using nodes_trans child_in_nodes by blast
      ultimately have "ident n \<in> set (ids c)" "ident n \<in> set (ids d)" by (auto simp: ids_def)
      with c d have "c = d"
        using distinct_ids_disjoint[OF Node.prems(1), of c d "ident n"] by simp
      moreover have "distinct (ids c)"
        using distinct_ids_children(1)[OF Node.prems(1), of c] c by simp
      ultimately show ?thesis
        using Node.IH[of c p q] c d Node.prems(4,5) by simp
    qed
  qed
qed

section \<open>One pruning step in closed form\<close>

lemma splice_child_facts:
  assumes "distinct (ids par)" "kink \<in> set (children par)" "c \<in> set (children kink)"
  shows "distinct (ids (splice par (ident kink) c len))"
    and "set (ids (splice par (ident kink) c len)) \<subseteq> set (ids par)"
    and "ident (splice par (ident kink) c len) = ident par"
    and "size (splice par (ident kink) c len) < size par"
    and "set (ids (splice par (ident kink) c len)) =
           set (ids par) - (set (ids kink) - set (ids c))"
    and "\<exists>xs ys. children par = xs @ kink # ys \<and>
           children (splice par (ident kink) c len) = xs @ ys @ [set_length len c]"
proof -
  from children_split[OF assms(1,2)] obtain xs ys where
    split: "children par = xs @ kink # ys" "remove_id (ident kink) (children par) = xs @ ys"
    and disj: "\<forall>x \<in> set xs \<union> set ys. set (ids x) \<inter> set (ids kink) = {}"
    by auto
  have sub: "set (ids c) \<subseteq> set (ids kink)"
    using assms(3) ids_subtree child_in_nodes by blast
  have dk: "distinct (ids kink)" using distinct_ids_children(1)[OF assms(1,2)] .
  have dc: "distinct (ids c)" using distinct_ids_children(1)[OF dk assms(3)] .
  have idspar: "ids par = ident par # concat (map ids xs) @ ids kink @ concat (map ids ys)"
    using ids_children[of par] split by simp
  have ids: "ids (splice par (ident kink) c len) =
      ident par # concat (map ids xs) @ concat (map ids ys) @ ids c"
    by (simp add: splice_def split(2) ids_set_children)
  show "distinct (ids (splice par (ident kink) c len))"
    using assms(1) sub dc unfolding ids idspar by auto
  show "set (ids (splice par (ident kink) c len)) \<subseteq> set (ids par)"
    using sub unfolding ids idspar by auto
  show "ident (splice par (ident kink) c len) = ident par"
    by (simp add: splice_def)
  have "size par = Suc (size_list size (children par))" by (cases par) simp
  moreover have "size (splice par (ident kink) c len) = Suc (size_list size (xs @ ys @ [set_length len c]))"
    by (simp add: splice_def split(2) set_children_def)
  moreover have "size (set_length len c) = size c" by (cases c) (simp add: set_length_def)
  moreover have "size c < size kink" using size_child[OF assms(3)] .
  ultimately show "size (splice par (ident kink) c len) < size par"
    using split(1) by simp
  show "set (ids (splice par (ident kink) c len)) = set (ids par) - (set (ids kink) - set (ids c))"
    using assms(1) sub unfolding ids idspar by auto
  show "\<exists>xs ys. children par = xs @ kink # ys \<and>
           children (splice par (ident kink) c len) = xs @ ys @ [set_length len c]"
    using split by (auto simp: splice_def)
qed

lemma remove_id_pair:
  assumes "ident c0 \<noteq> ident c1"
  shows "remove_id (ident c0) (c0 # c1 # rest) = c1 # rest"
    and "remove_id (ident c1) (c0 # c1 # rest) = c0 # rest"
  using assms by simp_all

lemma cut_then_kink:
  assumes dT: "distinct (ids T)"
    and n: "n \<in> set (iternodes PREORDER T)" "ident n \<noteq> ident T"
    and ch: "children n = c0 # c1 # rest"
    and XY: "(X = c0 \<and> Y = c1) \<or> (X = c1 \<and> Y = c0)"
  shows "\<exists>par. par \<in> set (iternodes PREORDER T) \<and> n \<in> set (children par) \<and>
           cut_clade T (ident n) (ident X) \<noteq> Inl ValueError \<and>
           (\<forall>T1. cut_clade T (ident n) (ident X) = Inr T1 \<longrightarrow>
              remove_kink fadd T1 (ident n) (ident T) =
                Inr (update_at (ident par) (\<lambda>_. splice par (ident n) Y (fadd (length_n n) (length_n Y))) T,
                     ident Y, ident T)) \<and>
           (\<exists>T1. cut_clade T (ident n) (ident X) = Inr T1)"
proof -
  let ?g = "\<lambda>x. set_children (remove_id (ident X) (children x)) x"
  let ?T1 = "update_at (ident n) ?g T"
  let ?n1 = "set_children (Y # rest) n"
  let ?len = "fadd (length_n n) (length_n Y)"
  have nT: "n \<noteq> T" using n(2) by auto
  have dn: "distinct (ids n)" using distinct_ids_subtree[OF dT n(1)] .
  have c01: "c0 \<in> set (children n)" "c1 \<in> set (children n)" using ch by simp_all
  have "c0 \<noteq> c1" using distinct_children[OF dn] ch by simp
  then have idc: "ident c0 \<noteq> ident c1"
    using distinct_ids_disjoint[OF dn c01, of "ident c0"] ident_in_ids[of c0] ident_in_ids[of c1]
    by auto
  have Xin: "X \<in> set (children n)" and Yin: "Y \<in> set (children n)" using XY c01 by auto
  have gn: "?g n = ?n1"
    using XY remove_id_pair[OF idc, of rest] ch by auto
  have ln: "lookup T (ident n) = Some n" using lookup_node[OF dT n(1)] .
  have rc: "remove_child T (ident n) (ident X) = Inr ?T1"
    using ln Xin by (auto simp: remove_child_def)
  have idsn: "ids n = ident n # ids c0 @ ids c1 @ concat (map ids rest)"
    using ids_children[of n] ch by simp
  have idsn1: "ids ?n1 = ident n # ids Y @ concat (map ids rest)"
    by (simp add: ids_set_children)
  have d1: "distinct (ids (?g n))" "set (ids (?g n)) \<subseteq> set (ids n)"
    using dn XY unfolding gn idsn1 idsn by auto
  have dT1: "distinct (ids ?T1)" using dT ln d1 by (rule distinct_update)
  have l1: "lookup ?T1 (ident n) = Some ?n1"
    using lookup_update[where f = "?g", OF dT ln d1] gn by simp
  have Xn1: "ident X \<notin> set (ids ?n1)"
    using dn XY ident_in_ids[of X] unfolding idsn1 idsn by auto
  have "ident X \<in> set (ids n)"
    using Xin ident_in_ids[of X] ids_subtree[OF child_in_nodes[OF Xin]] by auto
  with Xn1 have "ident X \<notin> set (ids ?T1)"
    using ids_update[OF dT ln, of ?g] gn by auto
  then have "parent ?T1 (ident X) = None" by (rule parent_None)
  with rc have cc: "cut_clade T (ident n) (ident X) = Inr ?T1"
    by (simp add: cut_clade_def prune_def)
  from parent_of_node[OF dT n(1) nT] obtain par where
    par: "par \<in> set (iternodes PREORDER T)" "n \<in> set (children par)" by blast
  let ?P = "ident par"
  have lpar: "lookup T ?P = Some par" using lookup_node[OF dT par(1)] .
  have dpar: "distinct (ids par)" using distinct_ids_subtree[OF dT par(1)] .
  have nP: "ident n \<noteq> ?P"
    using distinct_ids_children(2)[OF dpar par(2)] ident_in_ids[of n] by auto
  have nin: "ident n \<in> set (ids par)"
    using ident_in_ids[of n] ids_subtree[OF child_in_nodes[OF par(2)]] by auto
  have T1': "?T1 = update_at ?P (update_at (ident n) ?g) T"
    using dT lpar nin nP by (rule update_inside)
  let ?q = "update_at (ident n) ?g par"
  have qnode: "?q \<in> set (iternodes PREORDER ?T1)"
    unfolding T1' using dT lpar by (rule node_update)
  have qform: "?q = Node ?P (label par) (length_n par) (map (update_at (ident n) ?g) (children par))"
    using nP by (intro update_at_other) simp
  have n1q: "?n1 \<in> set (children ?q)"
  proof -
    have "update_at (ident n) ?g n = ?g n" by (rule update_at_top) simp
    with gn par(2) show ?thesis unfolding qform by force
  qed
  have n1node: "?n1 \<in> set (iternodes PREORDER ?T1)"
    using lookup_Some[OF l1] by simp
  have idT1: "ident ?T1 = ident T"
    by (rule ident_update_at) simp
  have "?n1 \<noteq> ?T1" using n(2) idT1 by (metis ident_set_children)
  from parent_of_node[OF dT1 n1node this] obtain par1 where
    par1: "parent ?T1 (ident ?n1) = Some par1" "par1 \<in> set (iternodes PREORDER ?T1)"
    "?n1 \<in> set (children par1)" by blast
  have "par1 = ?q"
    using parent_unique[OF dT1 par1(2) qnode par1(3) n1q] .
  with par1 have p1: "parent ?T1 (ident n) = Some ?q" by simp
  have lroot: "lookup ?T1 (ident T) = Some ?T1"
    using lookup_self[of ?T1] idT1 by simp
  have "children ?n1 = Y # rest" by simp
  from remove_kink_at_kink[OF dT1 l1 this p1 lroot] n(2)
  have rk: "remove_kink fadd ?T1 (ident n) (ident T) =
      Inr (update_at (ident ?q) (\<lambda>_. splice ?q (ident n) Y (fadd (length_n ?n1) (length_n Y))) ?T1,
           ident Y, ident T)"
    by simp
  have idq: "ident ?q = ?P" unfolding qform by simp
  have leq: "length_n ?n1 = length_n n" by (simp add: set_children_def)
  from children_split[OF dpar par(2)] obtain xs ys where
    split: "children par = xs @ n # ys" "remove_id (ident n) (children par) = xs @ ys"
    and disj: "\<forall>x \<in> set xs \<union> set ys. set (ids x) \<inter> set (ids n) = {}"
    by auto
  have other: "update_at (ident n) ?g x = x" if "x \<in> set xs \<union> set ys" for x
  proof (rule update_absent)
    from disj that ident_in_ids[of n] show "ident n \<notin> set (ids x)" by auto
  qed
  have chq: "children ?q = xs @ ?n1 # ys"
  proof -
    have "map (update_at (ident n) ?g) xs = xs" "map (update_at (ident n) ?g) ys = ys"
      using other by (auto intro: map_idI)
    moreover have "update_at (ident n) ?g n = ?n1" using gn by (simp add: update_at_top)
    ultimately show ?thesis unfolding qform split(1) by simp
  qed
  have "\<forall>x \<in> set xs. ident x \<noteq> ident n"
    using disj ident_in_ids by (metis UnI1 disjoint_iff)
  then have "remove_id (ident n) (xs @ ?n1 # ys) = xs @ ys"
    by (rule remove_id_split) simp
  then have r: "remove_id (ident n) (children ?q) = xs @ ys"
    unfolding chq .
  have qi: "ident ?q = ?P" "label ?q = label par" "length_n ?q = length_n par"
    using qform by (metis node.sel(1), metis node.sel(2), metis node.sel(3))
  have sq: "set_children cs ?q = set_children cs par" for cs
    unfolding set_children_def[of cs "?q"] set_children_def[of cs par] qi ..
  have spl: "splice ?q (ident n) Y ?len = splice par (ident n) Y ?len"
    unfolding splice_def r split(2) by (rule sq)
  have "update_at ?P (\<lambda>_. splice par (ident n) Y ?len) ?T1 =
        update_at ?P (\<lambda>x. splice par (ident n) Y ?len) T"
    unfolding T1'
  proof (rule update_compose)
    fix x assume "ident x = ?P"
    then show "ident (update_at (ident n) ?g x) = ?P"
      using nP by (metis ident_update_at)
  qed
  with rk idq leq spl have "remove_kink fadd ?T1 (ident n) (ident T) =
      Inr (update_at ?P (\<lambda>_. splice par (ident n) Y ?len) T, ident Y, ident T)"
    by simp
  with cc par show ?thesis by auto
qed

section \<open>The invariant of the pruning loop\<close>

lemma disjoint_children_shrink:
  assumes "children T = xs @ c # ys" "distinct (children T)" "disjoint_children T"
    and "set (get_front_names c') \<subseteq> set (get_front_names c)"
    and "children T' = xs @ c' # ys"
  shows "disjoint_children T'"
  unfolding disjoint_children_def
proof (intro ballI impI)
  fix a b assume ab: "a \<in> set (children T')" "b \<in> set (children T')" "a \<noteq> b"
  have old: "set (get_front_names u) \<inter> set (get_front_names v) = {}"
    if "u \<in> set (children T)" "v \<in> set (children T)" "u \<noteq> v" for u v
    using assms(3) that unfolding disjoint_children_def by blast
  have cother: "set (get_front_names c) \<inter> set (get_front_names v) = {}"
    "set (get_front_names v) \<inter> set (get_front_names c) = {}" if "v \<in> set xs \<union> set ys" for v
    using old[of c v] old[of v c] that assms(1,2) by auto
  consider "a = c'" "b \<in> set xs \<union> set ys" | "b = c'" "a \<in> set xs \<union> set ys"
    | "a \<in> set xs \<union> set ys" "b \<in> set xs \<union> set ys"
    using ab assms(5) by auto
  then show "set (get_front_names a) \<inter> set (get_front_names b) = {}"
  proof cases
    case 1
    with cother(1)[of b] assms(4) show ?thesis by auto
  next
    case 2
    with cother(2)[of a] assms(4) show ?thesis by auto
  next
    case 3
    with old[of a b] ab(3) assms(1) show ?thesis by auto
  qed
qed

lemma disjoint_children_move:
  assumes "children T = xs @ n # ys" "distinct (children T)" "disjoint_children T"
    and "set (get_front_names y) \<subseteq> set (get_front_names n)"
    and "children T' = xs @ ys @ [y]"
  shows "disjoint_children T'"
  unfolding disjoint_children_def
proof (intro ballI impI)
  fix a b assume ab: "a \<in> set (children T')" "b \<in> set (children T')" "a \<noteq> b"
  have old: "set (get_front_names u) \<inter> set (get_front_names v) = {}"
    if "u \<in> set (children T)" "v \<in> set (children T)" "u \<noteq> v" for u v
    using assms(3) that unfolding disjoint_children_def by blast
  have nother: "set (get_front_names n) \<inter> set (get_front_names v) = {}"
    "set (get_front_names v) \<inter> set (get_front_names n) = {}" if "v \<in> set xs \<union> set ys" for v
    using old[of n v] old[of v n] that assms(1,2) by auto
  consider "a = y" "b \<in> set xs \<union> set ys" | "b = y" "a \<in> set xs \<union> set ys"
    | "a \<in> set xs \<union> set ys" "b \<in> set xs \<union> set ys"
    using ab assms(5) by auto
  then show "set (get_front_names a) \<inter> set (get_front_names b) = {}"
  proof cases
    case 1
    with nother(1)[of b] assms(4) show ?thesis by auto
  next
    case 2
    with nother(2)[of a] assms(4) show ?thesis by auto
  next
    case 3
    with old[of a b] ab(3) assms(1) show ?thesis by auto
  qed
qed

lemma nonroot_in_child:
  assumes "n \<in> set (iternodes PREORDER T)" "n \<noteq> T"
  shows "\<exists>c \<in> set (children T). n \<in> set (iternodes PREORDER c)"
  using nodes_cases[OF assms(1)] assms(2) by simp

lemma step_preserves:
  assumes inv: "prune_inv T"
    and par: "par \<in> set (iternodes PREORDER T)" "n \<in> set (children par)"
    and Y: "Y \<in> set (children n)"
  shows "prune_inv (update_at (ident par) (\<lambda>_. splice par (ident n) Y len) T) \<and>
         size (update_at (ident par) (\<lambda>_. splice par (ident n) Y len) T) < size T \<and>
         ident (update_at (ident par) (\<lambda>_. splice par (ident n) Y len) T) = ident T"
proof -
  let ?S = "splice par (ident n) Y len"
  let ?f = "\<lambda>_ :: node. ?S"
  let ?P = "ident par"
  let ?T2 = "update_at ?P ?f T"
  have dT: "distinct (ids T)" and bT: "\<forall>c \<in> set (children T). binary c" and jT: "disjoint_children T"
    using inv by (auto simp: prune_inv_def)
  have lpar: "lookup T ?P = Some par" using lookup_node[OF dT par(1)] .
  have dpar: "distinct (ids par)" using distinct_ids_subtree[OF dT par(1)] .
  note sf = splice_child_facts[OF dpar par(2) Y, of len]
  have d2: "distinct (ids ?T2)"
    using distinct_update[where f = ?f, OF dT lpar] sf(1,2) by simp
  have s2: "size ?T2 < size T"
    using size_update[where f = ?f, OF dT lpar] sf(4) by simp
  have i2: "ident ?T2 = ident T"
    by (rule ident_update_at) (simp add: sf(3))
  from sf(6) obtain xs ys where
    split: "children par = xs @ n # ys" "children ?S = xs @ ys @ [set_length len Y]" by blast
  have nnode: "n \<in> set (iternodes PREORDER T)"
    using par nodes_trans child_in_nodes by blast
  have nT: "n \<noteq> T"
    using size_child[OF par(2)] size_subtree[OF par(1)] by auto
  from nonroot_in_child[OF nnode nT] obtain cn where
    cn: "cn \<in> set (children T)" "n \<in> set (iternodes PREORDER cn)" by blast
  have bn: "binary n" using binary_subtree[of cn n] cn bT by blast
  have bY: "binary Y" using binary_children[OF bn] Y by auto
  have nmY: "set (get_front_names (set_length len Y)) \<subseteq> set (get_front_names n)"
    using names_child_subset[OF Y] by simp
  have nmS: "set (get_front_names ?S) \<subseteq> set (get_front_names par)"
  proof -
    have "get_front_names par = concat (map get_front_names (xs @ n # ys))"
      using names_children[of par] split(1) by simp
    moreover have "get_front_names ?S = concat (map get_front_names (xs @ ys @ [set_length len Y]))"
      using names_children[of ?S] split(2) by simp
    ultimately show ?thesis using nmY by auto
  qed
  show ?thesis
  proof (cases "par = T")
    case True
    then have T2: "?T2 = ?S" by (simp add: update_at_top)
    have "\<forall>c \<in> set (children ?S). binary c"
      using bT bY split True by auto
    moreover have "disjoint_children ?S"
      using disjoint_children_move[of T xs n ys "set_length len Y" ?S]
        split True distinct_children[OF dT] jT nmY by simp
    ultimately show ?thesis using d2 s2 i2 unfolding T2 prune_inv_def by simp
  next
    case False
    then have Pj: "?P \<noteq> ident T"
      using nodes_inj[OF dT par(1) self_in_nodes] by auto
    obtain j l b cs where T: "T = Node j l b cs" by (cases T)
    from update_decompose[of j l b cs ?P par] dT lpar Pj T obtain xs' c0 ys' where
      d: "cs = xs' @ c0 # ys'" "lookup c0 ?P = Some par"
      "\<And>f. update_at ?P f (Node j l b cs) = Node j l b (xs' @ update_at ?P f c0 # ys')"
      by auto
    have c0: "c0 \<in> set (children T)" using T d(1) by simp
    have dc0: "distinct (ids c0)" using distinct_ids_children(1)[OF dT c0] .
    have bc0: "binary c0" using bT c0 by simp
    have bpar: "binary par" using binary_subtree[OF bc0] lookup_Some[OF d(2)] by simp
    from binary_children[OF bpar] split(1) have bp: "length (children par) = 2"
      "\<forall>c \<in> set (children par). binary c" by auto
    have bS: "binary ?S"
    proof -
      have "length (children ?S) = 2" using bp(1) split by simp
      moreover have "\<forall>c \<in> set (children ?S). binary c" using bp(2) bY split by auto
      ultimately show ?thesis by (cases ?S) auto
    qed
    have bc0': "binary (update_at ?P ?f c0)"
      using binary_update[where f = ?f, OF dc0 d(2) bc0] bS by simp
    have nc0': "set (get_front_names (update_at ?P ?f c0)) \<subseteq> set (get_front_names c0)"
      using names_update[where f = ?f, OF dc0 d(2)] nmS by simp
    have ch2: "children ?T2 = xs' @ update_at ?P ?f c0 # ys'"
      unfolding T d(3) by simp
    have "\<forall>c \<in> set (children ?T2). binary c"
      unfolding ch2 using bT bc0' T d(1) by auto
    moreover have "disjoint_children ?T2"
      using disjoint_children_shrink[of T xs' c0 ys' "update_at ?P ?f c0" ?T2]
        T d(1) distinct_children[OF dT] jT nc0' ch2 by simp
    ultimately show ?thesis using d2 s2 i2 unfolding prune_inv_def by simp
  qed
qed

lemma prune_scan_find:
  assumes "\<forall>n \<in> set ns. \<not> istip n \<and> ident n \<noteq> rt \<longrightarrow> (\<exists>c0 c1 rest. children n = c0 # c1 # rest)"
  shows "prune_scan fadd T rt ns =
           (case find (sibling_clash rt) ns of
              None \<Rightarrow> None
            | Some n \<Rightarrow> Some (prune_step fadd T rt n))"
  using assms
proof (induction ns)
  case Nil
  then show ?case by simp
next
  case (Cons n ns)
  show ?case
  proof (cases "istip n \<or> ident n = rt")
    case True
    with Cons show ?thesis by (auto simp: sibling_clash_def)
  next
    case False
    with Cons.prems obtain c0 c1 rest where ch: "children n = c0 # c1 # rest" by auto
    with False Cons show ?thesis
      by (auto simp: sibling_clash_def prune_step_def Let_def)
  qed
qed

lemma distinct_concat_map:
  "distinct cs \<Longrightarrow> (\<forall>c \<in> set cs. distinct (f c)) \<Longrightarrow>
   (\<forall>c \<in> set cs. \<forall>d \<in> set cs. c \<noteq> d \<longrightarrow> set (f c) \<inter> set (f d) = {}) \<Longrightarrow>
   distinct (concat (map f cs))"
proof (induction cs)
  case Nil
  then show ?case by simp
next
  case (Cons x xs)
  then have "distinct (concat (map f xs))" by simp
  moreover have "distinct (f x)" using Cons.prems by simp
  moreover have "set (f x) \<inter> set (concat (map f xs)) = {}"
    using Cons.prems by fastforce
  ultimately show ?case by simp
qed

lemma binary_clash:
  "binary c \<Longrightarrow> \<not> distinct (get_front_names c) \<Longrightarrow>
   \<exists>n \<in> set (iternodes PREORDER c). \<exists>a b. children n = [a, b] \<and>
      set (get_front_names a) \<inter> set (get_front_names b) \<noteq> {}"
proof (induction c)
  case (Node i l b cs)
  from Node.prems(2) have "cs \<noteq> []" by (auto simp: names_Node)
  with Node.prems(1) obtain x y where cs: "cs = [x, y]" "binary x" "binary y"
    by (auto simp: length_Suc_conv numeral_2_eq_2)
  with Node.prems(2) have "\<not> distinct (get_front_names x @ get_front_names y)"
    by (simp add: names_Node)
  then consider "\<not> distinct (get_front_names x)" | "\<not> distinct (get_front_names y)"
    | "set (get_front_names x) \<inter> set (get_front_names y) \<noteq> {}"
    by auto
  then show ?case
  proof cases
    case 1
    with Node.IH[of x] cs obtain n where "n \<in> set (iternodes PREORDER x)"
      "\<exists>a b. children n = [a, b] \<and> set (get_front_names a) \<inter> set (get_front_names b) \<noteq> {}"
      by auto
    moreover have "x \<in> set (children (Node i l b cs))" using cs(1) by simp
    ultimately show ?thesis using nodes_trans child_in_nodes by blast
  next
    case 2
    with Node.IH[of y] cs obtain n where "n \<in> set (iternodes PREORDER y)"
      "\<exists>a b. children n = [a, b] \<and> set (get_front_names a) \<inter> set (get_front_names b) \<noteq> {}"
      by auto
    moreover have "y \<in> set (children (Node i l b cs))" using cs(1) by simp
    ultimately show ?thesis using nodes_trans child_in_nodes by blast
  next
    case 3
    have "Node i l b cs \<in> set (iternodes PREORDER (Node i l b cs))" by (rule self_in_nodes)
    moreover have "children (Node i l b cs) = [x, y]" using cs(1) by simp
    ultimately show ?thesis using 3 by blast
  qed
qed

lemma top_clash:
  assumes "prune_inv T" "\<not> distinct (get_front_names T)"
  shows "\<exists>n \<in> set (iternodes PREORDER T). sibling_clash (ident T) n"
proof -
  have dT: "distinct (ids T)" and bT: "\<forall>c \<in> set (children T). binary c" and jT: "disjoint_children T"
    using assms(1) by (auto simp: prune_inv_def)
  have "children T \<noteq> []" using assms(2) by (cases T) (auto simp: names_Node)
  then have "get_front_names T = concat (map get_front_names (children T))"
    by (rule names_children)
  with assms(2) have "\<not> distinct (concat (map get_front_names (children T)))" by simp
  then have "\<not> (\<forall>c \<in> set (children T). distinct (get_front_names c))"
    using distinct_concat_map[of "children T" get_front_names] distinct_children[OF dT] jT
    unfolding disjoint_children_def by blast
  then obtain c where c: "c \<in> set (children T)" "\<not> distinct (get_front_names c)" by blast
  with bT binary_clash[of c] obtain n a b where
    n: "n \<in> set (iternodes PREORDER c)" "children n = [a, b]"
    "set (get_front_names a) \<inter> set (get_front_names b) \<noteq> {}"
    by blast
  have "n \<in> set (iternodes PREORDER T)"
    using n(1) c(1) nodes_trans child_in_nodes by blast
  moreover have "ident n \<noteq> ident T"
  proof -
    have "ident n \<in> set (ids c)" using n(1) by (simp add: ids_def)
    then show ?thesis using distinct_ids_children(2)[OF dT c(1)] by metis
  qed
  moreover have "card (set (get_front_names a) \<inter> set (get_front_names b)) > 0"
    using n(3) by (simp add: card_gt_0_iff)
  ultimately have "n \<in> set (iternodes PREORDER T)" "sibling_clash (ident T) n"
    using n(2) by (simp_all add: sibling_clash_def istip_def)
  then show ?thesis by blast
qed

lemma not_distinct_card: "\<not> distinct xs \<longleftrightarrow> card (set xs) < length xs"
proof
  assume "\<not> distinct xs"
  then have "card (set xs) \<noteq> length xs" using card_distinct[of xs] by blast
  then show "card (set xs) < length xs" using card_length[of xs] by linarith
next
  assume "card (set xs) < length xs"
  then show "\<not> distinct xs" using distinct_card[of xs] by auto
qed

lemma inv_children_shape:
  assumes "prune_inv T"
  shows "\<forall>n \<in> set (iternodes PREORDER T). \<not> istip n \<and> ident n \<noteq> ident T \<longrightarrow>
           (\<exists>c0 c1 rest. children n = c0 # c1 # rest)"
proof (intro ballI impI)
  fix n assume n: "n \<in> set (iternodes PREORDER T)" "\<not> istip n \<and> ident n \<noteq> ident T"
  then have "n \<noteq> T" by auto
  from nonroot_in_child[OF n(1) this] obtain c where
    c: "c \<in> set (children T)" "n \<in> set (iternodes PREORDER c)" by blast
  have "binary c" using assms c(1) by (simp add: prune_inv_def)
  then have "binary n" using c(2) by (rule binary_subtree)
  from binary_children[OF this] n(2) have "length (children n) = 2" by (simp add: istip_def)
  then show "\<exists>c0 c1 rest. children n = c0 # c1 # rest"
    by (auto simp: length_Suc_conv numeral_2_eq_2)
qed

lemma prune_step_closed:
  assumes inv: "prune_inv T"
    and n: "n \<in> set (iternodes PREORDER T)" "sibling_clash (ident T) n"
  shows "\<exists>T2. prune_step fadd T (ident T) n = Inr (T2, ident T) \<and> prune_inv T2 \<and>
              size T2 < size T \<and> ident T2 = ident T"
proof -
  have dT: "distinct (ids T)" using inv by (simp add: prune_inv_def)
  from n(2) have idn: "ident n \<noteq> ident T" by (simp add: sibling_clash_def)
  from n(2) obtain c0 c1 rest where ch: "children n = c0 # c1 # rest"
    by (auto simp: sibling_clash_def split: list.splits)
  define big where "big = (card (set (get_front_names c0)) > card (set (get_front_names c1)))"
  define X where "X = (if big then c1 else c0)"
  define Y where "Y = (if big then c0 else c1)"
  have XY: "(X = c0 \<and> Y = c1) \<or> (X = c1 \<and> Y = c0)" by (simp add: X_def Y_def)
  from cut_then_kink[OF dT n(1) idn ch XY] obtain par T1 where
    par: "par \<in> set (iternodes PREORDER T)" "n \<in> set (children par)"
    and cut: "cut_clade T (ident n) (ident X) = Inr T1"
    and kink: "remove_kink fadd T1 (ident n) (ident T) =
       Inr (update_at (ident par) (\<lambda>_. splice par (ident n) Y (fadd (length_n n) (length_n Y))) T,
            ident Y, ident T)"
    by blast
  have Yn: "Y \<in> set (children n)" using ch by (auto simp: Y_def)
  have sel: "(if card (set (get_front_names c0)) > card (set (get_front_names c1))
              then cut_clade T (ident n) (ident c1)
              else cut_clade T (ident n) (ident c0)) = Inr T1"
    using cut by (simp add: X_def big_def split: if_splits)
  have "prune_step fadd T (ident T) n =
     Inr (update_at (ident par) (\<lambda>_. splice par (ident n) Y (fadd (length_n n) (length_n Y))) T, ident T)"
    unfolding prune_step_def ch Let_def list.case sel using kink by simp
  with step_preserves[OF inv par Yn, of "fadd (length_n n) (length_n Y)"] show ?thesis by blast
qed

lemma prune_loop_terminates:
  "prune_inv T \<Longrightarrow>
   \<exists>T'. prune_loop fadd T (ident T) = Some (Inr (T', ident T)) \<and> ident T' = ident T \<and>
        distinct (get_front_names T')"
proof (induction "size T" arbitrary: T rule: less_induct)
  case less
  have lk: "lookup T (ident T) = Some T" by (rule lookup_self)
  show ?case
  proof (cases "distinct (get_front_names T)")
    case True
    then have "\<not> card (set (get_front_names T)) < length (get_front_names T)"
      using not_distinct_card by blast
    then have "prune_loop fadd T (ident T) = Some (Inr (T, ident T))"
      by (subst prune_loop.simps) (simp add: lk)
    with True show ?thesis by simp
  next
    case False
    then have gt: "card (set (get_front_names T)) < length (get_front_names T)"
      using not_distinct_card by blast
    from top_clash[OF less.prems False]
    have "find (sibling_clash (ident T)) (iternodes PREORDER T) \<noteq> None"
      unfolding find_None_iff by blast
    then obtain n where f: "find (sibling_clash (ident T)) (iternodes PREORDER T) = Some n"
      by blast
    then have n: "n \<in> set (iternodes PREORDER T)" "sibling_clash (ident T) n"
      by (auto simp: find_Some_iff)
    have scan: "prune_scan fadd T (ident T) (iternodes PREORDER T) = Some (prune_step fadd T (ident T) n)"
      using prune_scan_find[OF inv_children_shape[OF less.prems], of fadd T] f by simp
    from prune_step_closed[OF less.prems n] obtain T2 where
      T2: "prune_step fadd T (ident T) n = Inr (T2, ident T)" "prune_inv T2" "size T2 < size T"
      "ident T2 = ident T" by blast
    from less.hyps[OF T2(3) T2(2)] obtain T' where
      T': "prune_loop fadd T2 (ident T) = Some (Inr (T', ident T))" "ident T' = ident T"
      "distinct (get_front_names T')" using T2(4) by auto
    have "prune_loop fadd T (ident T) = prune_loop fadd T2 (ident T)"
      by (subst prune_loop.simps) (simp add: lk gt scan T2(1))
    with T' show ?thesis by simp
  qed
qed

section \<open>The check for duplications at the root\<close>

lemma cut_clade_top:
  assumes dT: "distinct (ids T)" and X: "X \<in> set (children T)"
  shows "cut_clade T (ident T) (ident X) = Inr (set_children (remove_id (ident X) (children T)) T)"
    and "distinct (ids (set_children (remove_id (ident X) (children T)) T))"
    and "set (children (set_children (remove_id (ident X) (children T)) T)) = set (children T) - {X}"
    and "set (ids (set_children (remove_id (ident X) (children T)) T)) = set (ids T) - set (ids X)"
proof -
  let ?g = "\<lambda>x. set_children (remove_id (ident X) (children x)) x"
  from children_split[OF dT X] obtain xs ys where
    split: "children T = xs @ X # ys" "remove_id (ident X) (children T) = xs @ ys"
    "X \<notin> set xs" "X \<notin> set ys"
    and disj: "\<forall>x \<in> set xs \<union> set ys. set (ids x) \<inter> set (ids X) = {}"
    by blast
  have idsT: "ids T = ident T # concat (map ids xs) @ ids X @ concat (map ids ys)"
    using ids_children[of T] split(1) by simp
  have idsg: "ids (?g T) = ident T # concat (map ids xs) @ concat (map ids ys)"
    using split(2) by (simp add: ids_set_children)
  show d: "distinct (ids (?g T))" using dT unfolding idsg idsT by auto
  have "ident X \<notin> set (ids (?g T))"
    using dT ident_in_ids[of X] unfolding idsg idsT by auto
  then have pn: "parent (?g T) (ident X) = None" by (rule parent_None)
  have "remove_child T (ident T) (ident X) = Inr (?g T)"
    using X by (simp add: remove_child_def lookup_self update_at_top)
  with pn show "cut_clade T (ident T) (ident X) = Inr (?g T)"
    by (simp add: cut_clade_def prune_def)
  show "set (children (?g T)) = set (children T) - {X}"
    using split by auto
  show "set (ids (?g T)) = set (ids T) - set (ids X)"
    using dT unfolding idsg idsT by auto
qed

lemma valid_cut:
  assumes dT: "distinct (ids T)" and bT: "\<forall>c \<in> set (children T). binary c"
    and len: "length (children T) = 3"
    and og: "og \<in> set (children T)" "set (get_front_names og) \<subseteq> set outgroups"
      "\<forall>c \<in> set (children T). c \<noteq> og \<longrightarrow> set (get_front_names c) \<inter> set outgroups = {}"
    and X: "X \<in> set (children T)" "X \<noteq> og"
  shows "\<exists>T1. cut_clade T (ident T) (ident X) = Inr T1 \<and> prune_inv T1 \<and> ident T1 = ident T"
proof -
  let ?T1 = "set_children (remove_id (ident X) (children T)) T"
  note ct = cut_clade_top[OF dT X(1)]
  have b1: "\<forall>c \<in> set (children ?T1). binary c" using bT ct(3) by simp
  have c3: "card (set (children T)) = 3"
    using distinct_card[OF distinct_children[OF dT]] len by simp
  have "disjoint_children ?T1"
    unfolding disjoint_children_def
  proof (intro ballI impI)
    fix c d assume cd: "c \<in> set (children ?T1)" "d \<in> set (children ?T1)" "c \<noteq> d"
    then have in3: "c \<in> set (children T)" "d \<in> set (children T)" "c \<noteq> X" "d \<noteq> X"
      using ct(3) by auto
    have "c = og \<or> d = og"
    proof (rule ccontr)
      assume "\<not> (c = og \<or> d = og)"
      then have "card {c, d, og, X} = 4" using cd(3) in3(3,4) X(2) by simp
      moreover have "{c, d, og, X} \<subseteq> set (children T)" using in3 og(1) X(1) by simp
      then have "card {c, d, og, X} \<le> card (set (children T))"
        by (intro card_mono) simp_all
      ultimately show False using c3 by simp
    qed
    then show "set (get_front_names c) \<inter> set (get_front_names d) = {}"
    proof
      assume c: "c = og"
      then have "set (get_front_names d) \<inter> set outgroups = {}" using og(3) in3(2) cd(3) by auto
      with og(2) c show ?thesis by auto
    next
      assume d: "d = og"
      then have "set (get_front_names c) \<inter> set outgroups = {}" using og(3) in3(1) cd(3) by auto
      with og(2) d show ?thesis by auto
    qed
  qed
  with ct(1,2) b1 show ?thesis by (auto simp: prune_inv_def)
qed

lemma valid_nocut:
  assumes dT: "distinct (ids T)" and bT: "\<forall>c \<in> set (children T). binary c"
    and og: "og \<in> set (children T)" "set (get_front_names og) \<subseteq> set outgroups"
      "\<forall>c \<in> set (children T). c \<noteq> og \<longrightarrow> set (get_front_names c) \<inter> set outgroups = {}"
    and pair: "\<forall>c \<in> set (children T). \<forall>d \<in> set (children T). c \<noteq> og \<longrightarrow> d \<noteq> og \<longrightarrow> c \<noteq> d \<longrightarrow>
                 set (get_front_names c) \<inter> set (get_front_names d) = {}"
  shows "prune_inv T"
proof -
  have "disjoint_children T"
    unfolding disjoint_children_def
  proof (intro ballI impI)
    fix c d assume cd: "c \<in> set (children T)" "d \<in> set (children T)" "c \<noteq> d"
    show "set (get_front_names c) \<inter> set (get_front_names d) = {}"
    proof (cases "c = og \<or> d = og")
      case True
      then show ?thesis
      proof
        assume c: "c = og"
        then have "set (get_front_names d) \<inter> set outgroups = {}" using og(3) cd(2,3) by auto
        with og(2) c show ?thesis by auto
      next
        assume d: "d = og"
        then have "set (get_front_names c) \<inter> set outgroups = {}" using og(3) cd(1,3) by auto
        with og(2) d show ?thesis by auto
      qed
    next
      case False
      then show ?thesis using pair cd by blast
    qed
  qed
  with dT bT show ?thesis by (simp add: prune_inv_def)
qed

lemma out_zero:
  "length (get_front_outgroup_names n outgroups) = 0 \<longleftrightarrow>
   set (get_front_names n) \<inter> set outgroups = {}"
  by (auto simp: get_front_outgroup_names_def filter_empty_conv)

lemma out_pos:
  assumes "set (get_front_names n) \<subseteq> set outgroups"
  shows "length (get_front_outgroup_names n outgroups) \<noteq> 0"
proof -
  from names_nonempty[of n] obtain x where "x \<in> set (get_front_names n)"
    by (cases "get_front_names n") auto
  with assms have "set (get_front_names n) \<inter> set outgroups \<noteq> {}" by auto
  then show ?thesis unfolding out_zero .

qed

lemma root_pair:
  assumes dT: "distinct (ids T)" and bT: "\<forall>c \<in> set (children T). binary c"
    and len: "length (children T) = 3"
    and og: "og \<in> set (children T)" "set (get_front_names og) \<subseteq> set outgroups"
      "\<forall>c \<in> set (children T). c \<noteq> og \<longrightarrow> set (get_front_names c) \<inter> set outgroups = {}"
    and PQ: "P \<in> set (children T)" "Q \<in> set (children T)" "P \<noteq> og" "Q \<noteq> og" "P \<noteq> Q"
  shows "\<exists>T1. (if card (set (get_front_names P) \<inter> set (get_front_names Q)) > 0
               then (if card (set (get_front_names P)) > card (set (get_front_names Q))
                     then cut_clade T (ident T) (ident Q)
                     else cut_clade T (ident T) (ident P))
               else Inr T) = Inr T1 \<and> prune_inv T1 \<and> ident T1 = ident T"
proof (cases "card (set (get_front_names P) \<inter> set (get_front_names Q)) > 0")
  case True
  then show ?thesis
    using valid_cut[OF dT bT len og PQ(1,3)] valid_cut[OF dT bT len og PQ(2,4)] by simp
next
  case False
  then have e: "set (get_front_names P) \<inter> set (get_front_names Q) = {}" by simp
  have c3: "card (set (children T)) = 3"
    using distinct_card[OF distinct_children[OF dT]] len by simp
  have "\<forall>c \<in> set (children T). \<forall>d \<in> set (children T). c \<noteq> og \<longrightarrow> d \<noteq> og \<longrightarrow> c \<noteq> d \<longrightarrow>
          set (get_front_names c) \<inter> set (get_front_names d) = {}"
  proof (intro ballI impI)
    fix c d assume cd: "c \<in> set (children T)" "d \<in> set (children T)" "c \<noteq> og" "d \<noteq> og" "c \<noteq> d"
    have in2: "x = P \<or> x = Q" if "x \<in> set (children T)" "x \<noteq> og" for x
    proof (rule ccontr)
      assume "\<not> (x = P \<or> x = Q)"
      then have "card {x, P, Q, og} = 4" using that(2) PQ(3,4,5) by simp
      moreover have "{x, P, Q, og} \<subseteq> set (children T)" using that(1) og(1) PQ(1,2) by simp
      then have "card {x, P, Q, og} \<le> card (set (children T))"
        by (intro card_mono) simp_all
      ultimately show False using c3 by simp
    qed
    from in2[OF cd(1,3)] in2[OF cd(2,4)] cd(5) e
    show "set (get_front_names c) \<inter> set (get_front_names d) = {}" by auto
  qed
  from valid_nocut[OF dT bT og this] False show ?thesis by simp
qed

lemma prune_root_level_valid:
  assumes "valid_rerooted_homotree T outgroups"
  shows "\<exists>T1. prune_root_level T (ident T) outgroups = Inr T1 \<and> prune_inv T1 \<and> ident T1 = ident T"
proof -
  from assms obtain og where
    dT: "distinct (ids T)" and bT: "\<forall>c \<in> set (children T). binary c"
    and len: "length (children T) = 3"
    and og: "og \<in> set (children T)" "set (get_front_names og) \<subseteq> set outgroups"
      "\<forall>c \<in> set (children T). c \<noteq> og \<longrightarrow> set (get_front_names c) \<inter> set outgroups = {}"
    unfolding valid_rerooted_homotree_def by blast
  from len obtain n0 n1 n2 where ch: "children T = [n0, n1, n2]"
    by (auto simp: length_Suc_conv numeral_3_eq_3)
  have dc: "n0 \<noteq> n1" "n0 \<noteq> n2" "n1 \<noteq> n2"
    using distinct_children[OF dT] ch by auto
  have mem: "n0 \<in> set (children T)" "n1 \<in> set (children T)" "n2 \<in> set (children T)"
    using ch by simp_all
  have z: "c \<in> set (children T) \<Longrightarrow> c \<noteq> og \<Longrightarrow> length (get_front_outgroup_names c outgroups) = 0" for c
    using og(3) out_zero by blast
  have p: "length (get_front_outgroup_names og outgroups) \<noteq> 0"
    using out_pos[OF og(2)] .
  have lk: "lookup T (ident T) = Some T" by (rule lookup_self)
  from og(1) ch consider "og = n2" | "og = n0" | "og = n1" by auto
  then show ?thesis
  proof cases
    case 1
    then have o: "length (get_front_outgroup_names n0 outgroups) = 0"
      "length (get_front_outgroup_names n1 outgroups) = 0"
      using z[OF mem(1)] z[OF mem(2)] dc by auto
    have "n0 \<noteq> og" "n1 \<noteq> og" using 1 dc by auto
    from root_pair[OF dT bT len og mem(1,2) this dc(1)] show ?thesis
      using o by (simp add: prune_root_level_def lk ch Let_def)
  next
    case 2
    then have o: "length (get_front_outgroup_names n0 outgroups) \<noteq> 0"
      "length (get_front_outgroup_names n1 outgroups) = 0"
      "length (get_front_outgroup_names n2 outgroups) = 0"
      using z[OF mem(2)] z[OF mem(3)] p dc by auto
    have "n1 \<noteq> og" "n2 \<noteq> og" using 2 dc by auto
    from root_pair[OF dT bT len og mem(2,3) this dc(3)] show ?thesis
      using o by (simp add: prune_root_level_def lk ch Let_def)
  next
    case 3
    then have o: "length (get_front_outgroup_names n1 outgroups) \<noteq> 0"
      "length (get_front_outgroup_names n0 outgroups) = 0"
      "length (get_front_outgroup_names n2 outgroups) = 0"
      using z[OF mem(1)] z[OF mem(3)] p dc by auto
    have "n0 \<noteq> og" "n2 \<noteq> og" using 3 dc by auto
    from root_pair[OF dT bT len og mem(1,3) this dc(2)] show ?thesis
      using o by (simp add: prune_root_level_def lk ch Let_def)
  qed
qed

text \<open>
  C8. On every valid rerooted homotree (every node below the root a tip or binary)
  \<^verbatim>\<open>prune_paralogs_from_rerooted_homotree\<close> returns: the check at the root raises no
  error, the loop that rescans in pre-order, cuts a clade of the first intersecting
  sibling pair and removes the kink stops after finitely many passes, and the tree it
  returns has no taxon name on two tips.
\<close>

theorem pruning_loop_terminates:
  assumes "valid_rerooted_homotree T outgroups"
  shows "\<exists>T'. prune_paralogs_from_rerooted_homotree fadd T (ident T) outgroups = Some (Inr (T', ident T)) \<and>
              distinct (get_front_names T')"
proof (cases "distinct (get_front_names T)")
  case True
  then have "length (get_front_names T) = card (set (get_front_names T))"
    by (simp add: distinct_card)
  then have "prune_paralogs_from_rerooted_homotree fadd T (ident T) outgroups = Some (Inr (T, ident T))"
    by (simp add: prune_paralogs_from_rerooted_homotree_def lookup_self)
  with True show ?thesis by simp
next
  case False
  then have ne: "length (get_front_names T) \<noteq> card (set (get_front_names T))"
    using not_distinct_card[of "get_front_names T"] by simp
  from prune_root_level_valid[OF assms] obtain T1 where
    T1: "prune_root_level T (ident T) outgroups = Inr T1" "prune_inv T1" "ident T1 = ident T"
    by blast
  from prune_loop_terminates[OF T1(2)] T1(3) obtain T' where
    "prune_loop fadd T1 (ident T) = Some (Inr (T', ident T))" "distinct (get_front_names T')"
    by auto
  moreover have "prune_paralogs_from_rerooted_homotree fadd T (ident T) outgroups = prune_loop fadd T1 (ident T)"
    using ne T1(1) by (simp add: prune_paralogs_from_rerooted_homotree_def lookup_self)
  ultimately show ?thesis by simp
qed

theorem pruning_loop_terminates_witness:
  "valid_rerooted_homotree nested_homotree [''O1'', ''O2''] \<and>
   \<not> distinct (get_front_names nested_homotree) \<and>
   prune_paralogs_from_rerooted_homotree sample_fadd nested_homotree 0 [''O1'', ''O2''] =
     Some (Inr (nested_homotree_pruned, 0)) \<and>
   (\<exists>T'. prune_paralogs_from_rerooted_homotree sample_fadd nested_homotree (ident nested_homotree) [''O1'', ''O2''] =
           Some (Inr (T', ident nested_homotree)) \<and>
         distinct (get_front_names T'))"
proof -
  have v: "valid_rerooted_homotree nested_homotree [''O1'', ''O2'']"
    by code_simp
  have n: "\<not> distinct (get_front_names nested_homotree)"
    by code_simp
  have r: "prune_paralogs_from_rerooted_homotree sample_fadd nested_homotree 0 [''O1'', ''O2''] =
      Some (Inr (nested_homotree_pruned, 0))"
    by code_simp
  show ?thesis
    by (intro conjI v n r pruning_loop_terminates[OF v])
qed

section \<open>Which clade of an intersecting pair is removed\<close>

lemma prune_scan_clash:
  "prune_scan fadd T rt ns = Some (Inr res) \<Longrightarrow>
   \<exists>n. find (sibling_clash rt) ns = Some n \<and> prune_step fadd T rt n = Inr res"
proof (induction ns)
  case Nil
  then show ?case by simp
next
  case (Cons n ns)
  show ?case
  proof (cases "sibling_clash rt n")
    case True
    then obtain c0 c1 rest where ch: "children n = c0 # c1 # rest"
      by (auto simp: sibling_clash_def split: list.splits)
    with True Cons.prems show ?thesis
      by (auto simp: sibling_clash_def prune_step_def Let_def split: sum.splits)
  next
    case False
    then have "prune_scan fadd T rt (n # ns) = prune_scan fadd T rt ns \<or>
               prune_scan fadd T rt (n # ns) = Some (Inl IndexError)"
      by (auto simp: sibling_clash_def Let_def split: list.splits)
    with Cons.prems have "prune_scan fadd T rt ns = Some (Inr res)" by auto
    with Cons.IH False show ?thesis by simp
  qed
qed

lemma spec_clades:
  "(spec_removed_clade c0 c1 = c0 \<and> spec_kept_clade c0 c1 = c1) \<or>
   (spec_removed_clade c0 c1 = c1 \<and> spec_kept_clade c0 c1 = c0)"
  by (simp add: spec_removed_clade_def spec_kept_clade_def)

lemma scan_removes:
  assumes dT: "distinct (ids T)"
    and n: "n \<in> set (iternodes PREORDER T)" "ident n \<noteq> ident T"
    and ch: "children n = c0 # c1 # rest"
    and st: "prune_step fadd T (ident T) n = Inr (T2, rt2)"
  shows "set (ids (spec_removed_clade c0 c1)) \<inter> set (ids T2) = {} \<and>
         set (ids (spec_kept_clade c0 c1)) \<subseteq> set (ids T2)"
proof -
  let ?X = "spec_removed_clade c0 c1"
  let ?Y = "spec_kept_clade c0 c1"
  note XY = spec_clades[of c0 c1]
  from cut_then_kink[OF dT n ch XY] obtain par T1 where
    par: "par \<in> set (iternodes PREORDER T)" "n \<in> set (children par)"
    and cut: "cut_clade T (ident n) (ident ?X) = Inr T1"
    and kink: "remove_kink fadd T1 (ident n) (ident T) =
       Inr (update_at (ident par) (\<lambda>_. splice par (ident n) ?Y (fadd (length_n n) (length_n ?Y))) T,
            ident ?Y, ident T)"
    by blast
  have sel: "(if card (set (get_front_names c0)) > card (set (get_front_names c1))
              then cut_clade T (ident n) (ident c1)
              else cut_clade T (ident n) (ident c0)) = Inr T1"
    using cut by (simp add: spec_removed_clade_def split: if_splits)
  have "prune_step fadd T (ident T) n =
     Inr (update_at (ident par) (\<lambda>_. splice par (ident n) ?Y (fadd (length_n n) (length_n ?Y))) T, ident T)"
    unfolding prune_step_def ch Let_def list.case sel using kink by simp
  with st have T2: "T2 = update_at (ident par) (\<lambda>_. splice par (ident n) ?Y (fadd (length_n n) (length_n ?Y))) T"
    by simp
  have dn: "distinct (ids n)" using distinct_ids_subtree[OF dT n(1)] .
  have dpar: "distinct (ids par)" using distinct_ids_subtree[OF dT par(1)] .
  have lpar: "lookup T (ident par) = Some par" using lookup_node[OF dT par(1)] .
  have Xn: "?X \<in> set (children n)" and Yn: "?Y \<in> set (children n)"
    using XY ch by auto
  have "c0 \<noteq> c1" using distinct_children[OF dn] ch by simp
  then have "?X \<noteq> ?Y" using XY by auto
  then have disj: "set (ids ?X) \<inter> set (ids ?Y) = {}"
    using distinct_ids_disjoint[OF dn Xn Yn] by blast
  have sub: "set (ids ?X) \<subseteq> set (ids n)" "set (ids ?Y) \<subseteq> set (ids n)"
    "set (ids n) \<subseteq> set (ids par)" "set (ids par) \<subseteq> set (ids T)"
    using ids_subtree[OF child_in_nodes[OF Xn]] ids_subtree[OF child_in_nodes[OF Yn]]
      ids_subtree[OF child_in_nodes[OF par(2)]] ids_subtree[OF par(1)] by simp_all
  have idsT2: "set (ids T2) =
      (set (ids T) - set (ids par)) \<union> (set (ids par) - (set (ids n) - set (ids ?Y)))"
    unfolding T2 ids_update[OF dT lpar]
    using splice_child_facts(5)[OF dpar par(2) Yn] by simp
  show ?thesis unfolding idsT2 using disj sub by blast
qed

lemma root_removes:
  assumes dT: "distinct (ids T)"
    and ip: "ingroup_pair T outgroups = Some (first, second)"
    and cl: "card (set (get_front_names first) \<inter> set (get_front_names second)) > 0"
  shows "\<exists>T1. prune_root_level T (ident T) outgroups = Inr T1 \<and>
              set (ids (spec_removed_clade first second)) \<inter> set (ids T1) = {} \<and>
              set (ids (spec_kept_clade first second)) \<subseteq> set (ids T1)"
proof -
  let ?X = "spec_removed_clade first second"
  let ?Y = "spec_kept_clade first second"
  let ?T1 = "set_children (remove_id (ident ?X) (children T)) T"
  from ip obtain n0 n1 n2 rest where ch: "children T = n0 # n1 # n2 # rest"
    by (auto simp: ingroup_pair_def split: list.splits)
  have dc: "n0 \<noteq> n1" "n0 \<noteq> n2" "n1 \<noteq> n2"
    using distinct_children[OF dT] ch by auto
  from ip ch dc have mem: "first \<in> set (children T)" "second \<in> set (children T)" "first \<noteq> second"
    by (auto simp: ingroup_pair_def Let_def split: if_splits)
  note XY = spec_clades[of first second]
  have Xm: "?X \<in> set (children T)" and Ym: "?Y \<in> set (children T)" and ne: "?X \<noteq> ?Y"
    using XY mem by auto
  note ct = cut_clade_top[OF dT Xm]
  have prl: "prune_root_level T (ident T) outgroups =
      (if card (set (get_front_names first)) > card (set (get_front_names second))
       then cut_clade T (ident T) (ident second)
       else cut_clade T (ident T) (ident first))"
    using ip cl ch
    by (auto simp: prune_root_level_def ingroup_pair_def lookup_self Let_def split: if_splits)
  have "prune_root_level T (ident T) outgroups = cut_clade T (ident T) (ident ?X)"
    unfolding prl by (simp add: spec_removed_clade_def)
  then have r: "prune_root_level T (ident T) outgroups = Inr ?T1" using ct(1) by simp
  have disj: "set (ids ?X) \<inter> set (ids ?Y) = {}"
    using distinct_ids_disjoint[OF dT Xm Ym] ne by blast
  have "set (ids ?Y) \<subseteq> set (ids T)" using ids_subtree[OF child_in_nodes[OF Ym]] .
  with disj have "set (ids ?X) \<inter> set (ids ?T1) = {}" "set (ids ?Y) \<subseteq> set (ids ?T1)"
    unfolding ct(4) by auto
  with r show ?thesis by blast
qed

text \<open>
  C10. In \<^verbatim>\<open>prune_paralogs_from_rerooted_homotree\<close> every comparison of two intersecting
  clades removes the first-listed clade unless its set of names is strictly larger than
  the second's, in which case the second is removed. At the root: when the ingroup pair
  intersects, the check returns a tree from which the nodes of that clade are gone and
  in which the nodes of the other clade remain. In the loop: whenever a pass returns a
  tree, it has found the first node in pre-order whose first two children intersect, and
  the same holds of these two children. On a tie the clade removed is the first-listed.
\<close>

theorem first_listed_clade_removed_unless_larger:
  assumes "distinct (ids T)"
  shows "(\<forall>first second.
            ingroup_pair T outgroups = Some (first, second) \<longrightarrow>
            card (set (get_front_names first) \<inter> set (get_front_names second)) > 0 \<longrightarrow>
            (\<exists>T1. prune_root_level T (ident T) outgroups = Inr T1 \<and>
                  set (ids (spec_removed_clade first second)) \<inter> set (ids T1) = {} \<and>
                  set (ids (spec_kept_clade first second)) \<subseteq> set (ids T1))) \<and>
         (\<forall>T2 rt2.
            prune_scan fadd T (ident T) (iternodes PREORDER T) = Some (Inr (T2, rt2)) \<longrightarrow>
            (\<exists>n first second rest.
               find (sibling_clash (ident T)) (iternodes PREORDER T) = Some n \<and>
               children n = first # second # rest \<and>
               card (set (get_front_names first) \<inter> set (get_front_names second)) > 0 \<and>
               set (ids (spec_removed_clade first second)) \<inter> set (ids T2) = {} \<and>
               set (ids (spec_kept_clade first second)) \<subseteq> set (ids T2)))"
proof (intro conjI allI impI)
  fix first second
  assume "ingroup_pair T outgroups = Some (first, second)"
    "card (set (get_front_names first) \<inter> set (get_front_names second)) > 0"
  with assms show "\<exists>T1. prune_root_level T (ident T) outgroups = Inr T1 \<and>
                  set (ids (spec_removed_clade first second)) \<inter> set (ids T1) = {} \<and>
                  set (ids (spec_kept_clade first second)) \<subseteq> set (ids T1)"
    by (rule root_removes)
next
  fix T2 rt2
  assume "prune_scan fadd T (ident T) (iternodes PREORDER T) = Some (Inr (T2, rt2))"
  from prune_scan_clash[OF this] obtain n where
    f: "find (sibling_clash (ident T)) (iternodes PREORDER T) = Some n"
    and st: "prune_step fadd T (ident T) n = Inr (T2, rt2)" by blast
  from f have n: "n \<in> set (iternodes PREORDER T)" "sibling_clash (ident T) n"
    by (auto simp: find_Some_iff)
  from n(2) have idn: "ident n \<noteq> ident T" by (simp add: sibling_clash_def)
  from n(2) obtain first second rest where ch: "children n = first # second # rest"
    and cl: "card (set (get_front_names first) \<inter> set (get_front_names second)) > 0"
    by (auto simp: sibling_clash_def split: list.splits)
  from scan_removes[OF assms n(1) idn ch st] f ch cl
  show "\<exists>n first second rest.
               find (sibling_clash (ident T)) (iternodes PREORDER T) = Some n \<and>
               children n = first # second # rest \<and>
               card (set (get_front_names first) \<inter> set (get_front_names second)) > 0 \<and>
               set (ids (spec_removed_clade first second)) \<inter> set (ids T2) = {} \<and>
               set (ids (spec_kept_clade first second)) \<subseteq> set (ids T2)"
    by blast
qed

theorem first_listed_clade_removed_unless_larger_witness:
  "distinct (ids tie_tree) \<and>
   ingroup_pair tie_tree [''O''] = Some (tie_first, tie_second) \<and>
   card (set (get_front_names tie_first)) = card (set (get_front_names tie_second)) \<and>
   (\<exists>T1. prune_root_level tie_tree (ident tie_tree) [''O''] = Inr T1 \<and>
         set (ids tie_first) \<inter> set (ids T1) = {} \<and>
         set (ids tie_second) \<subseteq> set (ids T1)) \<and>
   prune_scan sample_fadd tie_tree (ident tie_tree) (iternodes PREORDER tie_tree) =
     Some (Inr (tie_tree_scanned, 0)) \<and>
   (\<exists>n first second rest.
      find (sibling_clash (ident tie_tree)) (iternodes PREORDER tie_tree) = Some n \<and>
      children n = first # second # rest \<and>
      card (set (get_front_names first) \<inter> set (get_front_names second)) > 0 \<and>
      set (ids (spec_removed_clade first second)) \<inter> set (ids tie_tree_scanned) = {} \<and>
      set (ids (spec_kept_clade first second)) \<subseteq> set (ids tie_tree_scanned))"
proof -
  have d: "distinct (ids tie_tree)"
    by code_simp
  have ip: "ingroup_pair tie_tree [''O''] = Some (tie_first, tie_second)"
    by code_simp
  have cl: "card (set (get_front_names tie_first) \<inter> set (get_front_names tie_second)) > 0"
    by code_simp
  have tie: "card (set (get_front_names tie_first)) = card (set (get_front_names tie_second))"
    by code_simp
  have sr: "spec_removed_clade tie_first tie_second = tie_first"
    by (simp add: spec_removed_clade_def tie)
  have sk: "spec_kept_clade tie_first tie_second = tie_second"
    by (simp add: spec_kept_clade_def tie)
  have sc: "prune_scan sample_fadd tie_tree (ident tie_tree) (iternodes PREORDER tie_tree) =
      Some (Inr (tie_tree_scanned, 0))"
    by code_simp
  note th = first_listed_clade_removed_unless_larger[OF d, of "[''O'']"]
  note r = conjunct1[OF th, rule_format, OF ip cl, unfolded sr sk]
  note s = conjunct2[OF th, rule_format, OF sc]
  show ?thesis
    by (intro conjI d ip tie r sc s)
qed

end
